theory Spec2Isabelle
  imports Complex_Main
begin

section \<open>Exceptions\<close>

text \<open>
  Every exception a modelled path can raise is a value.  \<open>AssertionError\<close> is what a
  failing Python \<open>assert\<close> raises; \<open>IndexError\<close> is an index out of range;
  \<open>ShapeMismatch\<close> stands for the exception the array library raises when a reshape,
  a broadcast or a norm is given incompatible shapes (a \<open>ValueError\<close> in NumPy, a
  \<open>TypeError\<close> or \<open>ValueError\<close> in JAX); \<open>KDTreeError\<close> is the \<open>ValueError\<close> of
  \<open>scipy.spatial.KDTree\<close> on data that is not an array of shape \<open>(n, m)\<close>.
  \<open>ShapeError\<close> and \<open>DegenerateRegionError\<close> are the names the specification uses;
  no statement of the source raises them.
\<close>

datatype error =
    AssertionError
  | IndexError
  | ShapeMismatch
  | KDTreeError
  | ShapeError
  | DegenerateRegionError

section \<open>Bounding boxes (funlib.geometry.Roi)\<close>

text \<open>
  A \<open>Coordinate\<close> is a tuple of integers, a \<open>Roi\<close> an offset and a shape of the same
  dimension (bounded regions only).  The operations are the ones the source calls:
  \<open>begin\<close>, \<open>end\<close>, \<open>shape\<close>, \<open>center\<close>, \<open>intersects\<close>, \<open>intersect\<close>, subtraction of a
  coordinate and \<open>to_slices\<close>.  The library compares regions of the same number of
  dimensions only (it asserts so); the theorems below are about such regions.
\<close>

type_synonym coordinate = "int list"

record roi =
  roi_offset :: coordinate
  roi_shape :: coordinate

definition Roi :: "coordinate \<Rightarrow> coordinate \<Rightarrow> roi" where
  "Roi off shp = \<lparr>roi_offset = off, roi_shape = shp\<rparr>"

definition roi_begin :: "roi \<Rightarrow> coordinate" where
  "roi_begin r = roi_offset r"

definition roi_end :: "roi \<Rightarrow> coordinate" where
  "roi_end r = map2 (+) (roi_offset r) (roi_shape r)"

definition roi_dims :: "roi \<Rightarrow> nat" where
  "roi_dims r = length (roi_shape r)"

definition roi_size :: "roi \<Rightarrow> int" where
  "roi_size r = prod_list (roi_shape r)"

definition roi_empty :: "roi \<Rightarrow> bool" where
  "roi_empty r = (roi_size r = 0)"

text \<open>\<open>int(a / 2)\<close>: the quotient truncated towards zero, as \<open>Coordinate\<close> stores it.\<close>

definition trunc_half :: "int \<Rightarrow> int" where
  "trunc_half a = (if a < 0 then - ((- a) div 2) else a div 2)"

definition roi_center :: "roi \<Rightarrow> coordinate" where
  "roi_center r = map2 (+) (roi_begin r) (map trunc_half (roi_shape r))"

text \<open>
  Two regions are separated when in some dimension one begins at or after the end of
  the other; an empty region intersects nothing.
\<close>

fun separated :: "coordinate \<Rightarrow> coordinate \<Rightarrow> coordinate \<Rightarrow> coordinate \<Rightarrow> bool" where
  "separated (b1 # bs1) (b2 # bs2) (e1 # es1) (e2 # es2) =
     (b1 \<ge> e2 \<or> e1 \<le> b2 \<or> separated bs1 bs2 es1 es2)"
| "separated _ _ _ _ = False"

definition intersects :: "roi \<Rightarrow> roi \<Rightarrow> bool" where
  "intersects a b =
     (if roi_empty a \<or> roi_empty b then False
      else \<not> separated (roi_begin a) (roi_begin b) (roi_end a) (roi_end b))"

definition intersect :: "roi \<Rightarrow> roi \<Rightarrow> roi" where
  "intersect a b =
     (if \<not> intersects a b
      then Roi (replicate (roi_dims a) 0) (replicate (roi_dims a) 0)
      else let bg = map2 max (roi_begin a) (roi_begin b);
               en = map2 min (roi_end a) (roi_end b)
           in Roi bg (map2 (-) en bg))"

definition roi_sub :: "roi \<Rightarrow> coordinate \<Rightarrow> roi" where
  "roi_sub r by = Roi (map2 (-) (roi_offset r) by) (roi_shape r)"

definition to_slices :: "roi \<Rightarrow> (int \<times> int) list" where
  "to_slices r = zip (roi_begin r) (roi_end r)"

section \<open>Components and their overlaps (preprocess.py)\<close>

text \<open>
  A \<open>Component\<close> holds its bounding box, its index and the list of the components it
  overlaps with.  The components of one data set live in one list; a reference to a
  component object is its position in that list, so \<open>overlapping_components\<close> is a list
  of positions.
\<close>

record component =
  bounding_box :: roi
  index :: nat
  overlapping_components :: "nat list"

definition Component :: "roi \<Rightarrow> nat \<Rightarrow> component" where
  "Component bb component_index =
     \<lparr>bounding_box = bb, index = component_index, overlapping_components = []\<rparr>"

definition construct_components :: "roi list \<Rightarrow> component list" where
  "construct_components bounding_boxes =
     map (\<lambda>(box_index, bb). Component bb box_index) (enumerate 0 bounding_boxes)"

definition get_diagonal_length :: "component \<Rightarrow> real" where
  "get_diagonal_length c =
     (let bg = roi_begin (bounding_box c); en = roi_end (bounding_box c)
      in sqrt (real_of_int (sum_list (map (\<lambda>d. d ^ 2) (map2 (-) en bg)))))"

text \<open>
  \<open>scipy.spatial.KDTree\<close>: the tree is its list of points.  Construction raises on
  data that is not of shape \<open>(n, m)\<close>: no point at all, or points of different
  dimensions.  \<open>query_ball_point x r\<close> returns the positions of the points whose
  Euclidean distance to \<open>x\<close> is at most \<open>r\<close>; the model lists them in increasing order
  (the library's order is the tree's traversal order).
\<close>

type_synonym kd_tree = "coordinate list"

definition KDTree :: "coordinate list \<Rightarrow> error + kd_tree" where
  "KDTree pts =
     (if pts = [] \<or> list_ex (\<lambda>p. length p \<noteq> length (hd pts)) pts
      then Inl KDTreeError else Inr pts)"

definition distance :: "coordinate \<Rightarrow> coordinate \<Rightarrow> real" where
  "distance p q = sqrt (real_of_int (sum_list (map (\<lambda>d. d ^ 2) (map2 (-) p q))))"

definition query_ball_point :: "kd_tree \<Rightarrow> coordinate \<Rightarrow> real \<Rightarrow> nat list" where
  "query_ball_point t x r = filter (\<lambda>i. distance (t ! i) x \<le> r) [0..<length t]"

definition find_overlapping_components ::
    "component \<Rightarrow> component list \<Rightarrow> kd_tree \<Rightarrow> error + nat list" where
  "find_overlapping_components c components t =
     (let component_center = roi_center (bounding_box c);
          close_component_indices =
            query_ball_point t component_center (get_diagonal_length c + 1)
      in if list_ex (\<lambda>i. i \<ge> length components) close_component_indices
         then Inl IndexError
         else Inr (filter
           (\<lambda>i. index (components ! i) \<noteq> index c \<and>
                intersects (bounding_box (components ! i)) (bounding_box c))
           close_component_indices))"

text \<open>
  The dictionary comprehension of \<open>create_components\<close>: one entry per component, in
  order; the first exception ends it.
\<close>

fun find_all ::
    "component list \<Rightarrow> component list \<Rightarrow> kd_tree \<Rightarrow> error + (nat \<times> nat list) list" where
  "find_all [] components t = Inr []"
| "find_all (c # cs) components t =
     (case find_overlapping_components c components t of
        Inl e \<Rightarrow> Inl e
      | Inr ov \<Rightarrow>
          (case find_all cs components t of
             Inl e \<Rightarrow> Inl e
           | Inr rest \<Rightarrow> Inr ((index c, ov) # rest)))"

text \<open>
  The loop over the dictionary: its keys are the indices of the components, which are
  their positions in the list.
\<close>

definition store_overlaps :: "(nat \<times> nat list) list \<Rightarrow> component list \<Rightarrow> component list" where
  "store_overlaps overlaps components =
     fold (\<lambda>(i, ov) cs. cs[i := (cs ! i)\<lparr>overlapping_components := ov\<rparr>]) overlaps components"

definition create_components :: "roi list \<Rightarrow> error + component list" where
  "create_components bounding_boxes =
     (let components = construct_components bounding_boxes;
          component_centers = map (\<lambda>c. roi_center (bounding_box c)) components
      in case KDTree component_centers of
           Inl e \<Rightarrow> Inl e
         | Inr t \<Rightarrow>
             (case find_all components components t of
                Inl e \<Rightarrow> Inl e
              | Inr overlaps \<Rightarrow> Inr (store_overlaps overlaps components)))"

section \<open>Arrays (the part of NumPy and jax.numpy the source uses)\<close>

text \<open>
  An array is its shape and its elements in row-major order; the elements are real
  numbers, which stand for the floating-point numbers of the source.  An array
  \<open>a\<close> of the program satisfies \<open>nd_ok a\<close>: it has as many elements as its shape
  says.  Indexing out of range raises \<open>IndexError\<close> (NumPy's behaviour); slices are
  clipped as Python clips them.
\<close>

record ndarray =
  shape :: "nat list"
  data :: "real list"

definition nd_ok :: "ndarray \<Rightarrow> bool" where
  "nd_ok a = (length (data a) = prod_list (shape a))"

definition nd_size :: "ndarray \<Rightarrow> nat" where
  "nd_size a = prod_list (shape a)"

definition bind_err :: "error + 'a \<Rightarrow> ('a \<Rightarrow> error + 'b) \<Rightarrow> error + 'b" where
  "bind_err m f = (case m of Inl e \<Rightarrow> Inl e | Inr x \<Rightarrow> f x)"

text \<open>The \<open>i\<close>-th block of \<open>m\<close> consecutive elements.\<close>

definition block :: "nat \<Rightarrow> nat \<Rightarrow> 'a list \<Rightarrow> 'a list" where
  "block m i xs = take m (drop (i * m) xs)"

text \<open>\<open>a[i]\<close> for a non-negative integer \<open>i\<close>.\<close>

definition nd_row :: "ndarray \<Rightarrow> nat \<Rightarrow> error + ndarray" where
  "nd_row a i =
     (case shape a of
        [] \<Rightarrow> Inl IndexError
      | n # s \<Rightarrow>
          if i < n then Inr \<lparr>shape = s, data = block (prod_list s) i (data a)\<rparr>
          else Inl IndexError)"

text \<open>An integer index into an axis of length \<open>n\<close>; a negative one counts from the end.\<close>

definition norm_index :: "nat \<Rightarrow> int \<Rightarrow> nat option" where
  "norm_index n k =
     (let k' = (if k < 0 then k + int n else k)
      in if 0 \<le> k' \<and> k' < int n then Some (nat k') else None)"

text \<open>\<open>a[frames]\<close> for a list of integers: the rows named, in the list's order.\<close>

definition nd_take :: "ndarray \<Rightarrow> int list \<Rightarrow> error + ndarray" where
  "nd_take a frames =
     (case shape a of
        [] \<Rightarrow> Inl IndexError
      | n # s \<Rightarrow>
          if list_ex (\<lambda>k. norm_index n k = None) frames then Inl IndexError
          else Inr \<lparr>shape = length frames # s,
                    data = concat (map (\<lambda>k. block (prod_list s) (the (norm_index n k)) (data a))
                                       frames)\<rparr>)"

text \<open>\<open>a[i, frames]\<close>.\<close>

definition nd_index2 :: "ndarray \<Rightarrow> nat \<Rightarrow> int list \<Rightarrow> error + ndarray" where
  "nd_index2 a i frames = bind_err (nd_row a i) (\<lambda>r. nd_take r frames)"

definition nd_map :: "(real \<Rightarrow> real) \<Rightarrow> ndarray \<Rightarrow> ndarray" where
  "nd_map f a = \<lparr>shape = shape a, data = map f (data a)\<rparr>"

text \<open>\<open>jnp.outer\<close> flattens both arguments.\<close>

definition outer :: "ndarray \<Rightarrow> ndarray \<Rightarrow> ndarray" where
  "outer w h =
     \<lparr>shape = [nd_size w, nd_size h],
      data = concat (map (\<lambda>x. map (\<lambda>y. x * y) (data h)) (data w))\<rparr>"

text \<open>
  \<open>a.reshape(newshape)\<close>: at most one entry of the new shape is \<open>-1\<close> and is inferred
  from the size; no other entry is negative; the sizes agree.  With a \<open>-1\<close> the other
  entries must have a non-zero product that divides the size: an array of size 0
  cannot be reshaped to \<open>(-1, 0)\<close>.
\<close>

definition np_reshape :: "ndarray \<Rightarrow> int list \<Rightarrow> error + ndarray" where
  "np_reshape a newshape =
     (if list_ex (\<lambda>d. d < - 1) newshape then Inl ShapeMismatch
      else if length (filter (\<lambda>d. d = - 1) newshape) = 0 then
        (if prod_list (map nat newshape) = nd_size a
         then Inr \<lparr>shape = map nat newshape, data = data a\<rparr>
         else Inl ShapeMismatch)
      else if length (filter (\<lambda>d. d = - 1) newshape) = 1 then
        (let known = prod_list (map nat (filter (\<lambda>d. d \<noteq> - 1) newshape))
         in if known = 0 \<or> nd_size a mod known \<noteq> 0 then Inl ShapeMismatch
            else Inr \<lparr>shape = map (\<lambda>d. if d = - 1 then nd_size a div known else nat d) newshape,
                      data = data a\<rparr>)
      else Inl ShapeMismatch)"

text \<open>
  Broadcasting: shapes are aligned at their last axes; two lengths agree when they
  are equal or one of them is 1.  \<open>broadcast_rev\<close> works on the reversed shapes.
\<close>

fun broadcast_rev :: "nat list \<Rightarrow> nat list \<Rightarrow> nat list option" where
  "broadcast_rev [] ys = Some ys"
| "broadcast_rev (x # xs) [] = Some (x # xs)"
| "broadcast_rev (x # xs) (y # ys) =
     (if x = y \<or> y = 1 then map_option ((#) x) (broadcast_rev xs ys)
      else if x = 1 then map_option ((#) y) (broadcast_rev xs ys)
      else None)"

definition broadcast_shapes :: "nat list \<Rightarrow> nat list \<Rightarrow> nat list option" where
  "broadcast_shapes s t = map_option rev (broadcast_rev (rev s) (rev t))"

text \<open>
  The elements of an array of shape \<open>s\<close> broadcast to the shape \<open>t\<close> (which \<open>s\<close>
  broadcasts to): missing leading axes and axes of length 1 are repeated.
\<close>

fun broadcast_data :: "nat list \<Rightarrow> nat list \<Rightarrow> real list \<Rightarrow> real list" where
  "broadcast_data s [] xs = xs"
| "broadcast_data s (m # t) xs =
     (if length s \<le> length t then concat (replicate m (broadcast_data s t xs))
      else if hd s = m
        then concat (map (\<lambda>i. broadcast_data (tl s) t (block (prod_list (tl s)) i xs)) [0..<m])
        else concat (replicate m (broadcast_data (tl s) t (block (prod_list (tl s)) 0 xs))))"

definition nd_binop :: "(real \<Rightarrow> real \<Rightarrow> real) \<Rightarrow> ndarray \<Rightarrow> ndarray \<Rightarrow> error + ndarray" where
  "nd_binop f a b =
     (case broadcast_shapes (shape a) (shape b) of
        None \<Rightarrow> Inl ShapeMismatch
      | Some t \<Rightarrow>
          Inr \<lparr>shape = t,
               data = map2 f (broadcast_data (shape a) t (data a))
                             (broadcast_data (shape b) t (data b))\<rparr>)"

definition nd_add :: "ndarray \<Rightarrow> ndarray \<Rightarrow> error + ndarray" where
  "nd_add = nd_binop (+)"

definition nd_sub :: "ndarray \<Rightarrow> ndarray \<Rightarrow> error + ndarray" where
  "nd_sub = nd_binop (-)"

text \<open>
  A slice \<open>slice(start, stop)\<close> with step 1; \<open>None\<close> is an omitted bound.
  \<open>slice_bounds n\<close> gives the first row and the row after the last one on an axis of
  length \<open>n\<close>, as \<open>slice.indices\<close> does.
\<close>

datatype pyslice = Slice "int option" "int option"

definition clip_bound :: "nat \<Rightarrow> int \<Rightarrow> nat" where
  "clip_bound n k = (if k < 0 then nat (max 0 (k + int n)) else min (nat k) n)"

fun slice_bounds :: "nat \<Rightarrow> pyslice \<Rightarrow> nat \<times> nat" where
  "slice_bounds n (Slice start stop) =
     ((case start of None \<Rightarrow> 0 | Some k \<Rightarrow> clip_bound n k),
      (case stop of None \<Rightarrow> n | Some k \<Rightarrow> clip_bound n k))"

definition roi_slices :: "roi \<Rightarrow> pyslice list" where
  "roi_slices r = map (\<lambda>(b, e). Slice (Some b) (Some e)) (to_slices r)"

text \<open>The shape and the elements of \<open>a[s1, ..., sk]\<close> for slices on the leading axes.\<close>

fun slice_shape :: "pyslice list \<Rightarrow> nat list \<Rightarrow> nat list" where
  "slice_shape (sl # sls) (n # s) =
     (snd (slice_bounds n sl) - fst (slice_bounds n sl)) # slice_shape sls s"
| "slice_shape _ s = s"

fun slice_data :: "pyslice list \<Rightarrow> nat list \<Rightarrow> real list \<Rightarrow> real list" where
  "slice_data (sl # sls) (n # s) xs =
     concat (map (\<lambda>i. slice_data sls s (block (prod_list s) i xs))
                 [fst (slice_bounds n sl)..<snd (slice_bounds n sl)])"
| "slice_data _ s xs = xs"

definition nd_slice :: "ndarray \<Rightarrow> pyslice list \<Rightarrow> error + ndarray" where
  "nd_slice a sls =
     (if length sls > length (shape a) then Inl IndexError
      else Inr \<lparr>shape = slice_shape sls (shape a),
                data = slice_data sls (shape a) (data a)\<rparr>)"

text \<open>\<open>a[(j,) + slices]\<close>.\<close>

definition nd_row_slice :: "ndarray \<Rightarrow> nat \<Rightarrow> pyslice list \<Rightarrow> error + ndarray" where
  "nd_row_slice a j sls = bind_err (nd_row a j) (\<lambda>r. nd_slice r sls)"

text \<open>
  \<open>x.at[slices].add(u)\<close>: \<open>u\<close> is broadcast to the shape of the sliced region and
  added there; the other elements are kept.
\<close>

fun add_data :: "pyslice list \<Rightarrow> nat list \<Rightarrow> real list \<Rightarrow> real list \<Rightarrow> real list" where
  "add_data (sl # sls) (n # s) xs us =
     concat (map (\<lambda>i.
        if fst (slice_bounds n sl) \<le> i \<and> i < snd (slice_bounds n sl)
        then add_data sls s (block (prod_list s) i xs)
               (block (prod_list (slice_shape sls s)) (i - fst (slice_bounds n sl)) us)
        else block (prod_list s) i xs) [0..<n])"
| "add_data _ s xs us = map2 (+) xs us"

definition at_add :: "ndarray \<Rightarrow> pyslice list \<Rightarrow> ndarray \<Rightarrow> error + ndarray" where
  "at_add x sls u =
     (if length sls > length (shape x) then Inl IndexError
      else if broadcast_shapes (slice_shape sls (shape x)) (shape u)
                \<noteq> Some (slice_shape sls (shape x))
        then Inl ShapeMismatch
      else Inr \<lparr>shape = shape x,
                data = add_data sls (shape x) (data x)
                         (broadcast_data (shape u) (slice_shape sls (shape x)) (data u))\<rparr>)"

text \<open>
  \<open>jnp.linalg.norm(a)\<close>: the Euclidean norm of the flattened array.
  \<open>jnp.linalg.norm(a, ord=1)\<close>: the sum of the absolute values of a vector, the largest
  absolute column sum of a matrix, an exception for any other number of axes and for
  a matrix with no column.
\<close>

definition norm2 :: "ndarray \<Rightarrow> real" where
  "norm2 a = sqrt (sum_list (map (\<lambda>v. v ^ 2) (data a)))"

definition norm1 :: "ndarray \<Rightarrow> error + real" where
  "norm1 a =
     (case shape a of
        [n] \<Rightarrow> Inr (sum_list (map abs (data a)))
      | [r, c] \<Rightarrow>
          if c = 0 then Inl ShapeMismatch
          else Inr (Max (set (map (\<lambda>j. sum_list (map (\<lambda>i. \<bar>data a ! (i * c + j)\<bar>) [0..<r]))
                                  [0..<c])))
      | _ \<Rightarrow> Inl ShapeMismatch)"

section \<open>Reconstruction and loss (loss.py)\<close>

text \<open>
  Modelled from the spec: \<open>utils.sigmoid\<close> is not among the sources; it is the squashing
  function, a smooth monotonic map onto the open interval \<open>(0, 1)\<close>: the logistic
  function.
\<close>

definition sigmoid :: "real \<Rightarrow> real" where
  "sigmoid v = 1 / (1 + exp (- v))"

definition nd_sigmoid :: "ndarray \<Rightarrow> ndarray" where
  "nd_sigmoid = nd_map sigmoid"

text \<open>
  One pass of the loop of \<open>get_x_hat\<close> over \<open>overlapping_components\<close>.  The loop
  rebinds \<open>H_logits\<close> and \<open>B_logits\<close>, so they are part of the loop's state with \<open>x_hat\<close>.
  \<open>cs\<close> is the list the component references point into; a reference \<open>p\<close> of the
  program always denotes a component, \<open>cs ! p\<close>.
\<close>

definition overlap_step ::
    "ndarray \<Rightarrow> roi \<Rightarrow> int list \<Rightarrow> component list \<Rightarrow> nat \<Rightarrow>
     ndarray \<times> ndarray \<times> ndarray \<Rightarrow> error + ndarray \<times> ndarray \<times> ndarray" where
  "overlap_step W_logits bb_i frames cs p st =
     (case st of (H_logits, B_logits, x_hat) \<Rightarrow>
      let overlap = cs ! p;
          j = index overlap;
          bb_j = bounding_box overlap;
          intersection = intersect bb_i bb_j;
          intersection_in_c_i = roi_sub intersection (roi_begin bb_i);
          intersection_in_c_j = roi_sub intersection (roi_begin bb_j);
          slices_i = Slice None None # roi_slices intersection_in_c_i;
          slices_j = roi_slices intersection_in_c_j
      in bind_err (np_reshape H_logits (- 1 # roi_shape bb_i)) (\<lambda>H_logits.
         bind_err (np_reshape B_logits (- 1 # roi_shape bb_i)) (\<lambda>B_logits.
         bind_err (nd_index2 W_logits j frames) (\<lambda>wl.
         bind_err (nd_row_slice H_logits j slices_j) (\<lambda>hl.
         bind_err (nd_row_slice B_logits j slices_j) (\<lambda>bl.
         let w = nd_sigmoid wl; h = nd_sigmoid hl; b = nd_sigmoid bl
         in bind_err (np_reshape (outer w h) (- 1 # map int (shape h))) (\<lambda>wh.
            bind_err (nd_add wh b) (\<lambda>u.
            bind_err (at_add x_hat slices_i u) (\<lambda>x_hat.
            Inr (H_logits, B_logits, x_hat))))))))))"

fun fold_err :: "('a \<Rightarrow> 's \<Rightarrow> error + 's) \<Rightarrow> 'a list \<Rightarrow> 's \<Rightarrow> error + 's" where
  "fold_err f [] s = Inr s"
| "fold_err f (x # xs) s = bind_err (f x s) (fold_err f xs)"

definition get_x_hat ::
    "ndarray \<Rightarrow> ndarray \<Rightarrow> ndarray \<Rightarrow> component list \<Rightarrow> component \<Rightarrow> int list \<Rightarrow>
     error + ndarray" where
  "get_x_hat H_logits W_logits B_logits cs component_description frames =
     (let i = index component_description;
          bb_i = bounding_box component_description
      in bind_err (nd_index2 W_logits i frames) (\<lambda>wl.
         bind_err (nd_row H_logits i) (\<lambda>hl.
         bind_err (nd_row B_logits i) (\<lambda>bl.
         let w = nd_sigmoid wl; h = nd_sigmoid hl; b = nd_sigmoid bl
         in bind_err (np_reshape (outer w h) (- 1 # map int (shape h))) (\<lambda>wh.
            bind_err (nd_add wh b) (\<lambda>x_hat.
            bind_err (np_reshape x_hat (- 1 # roi_shape bb_i)) (\<lambda>x_hat.
            bind_err (fold_err (overlap_step W_logits bb_i frames cs)
                        (overlapping_components component_description)
                        (H_logits, B_logits, x_hat)) (\<lambda>st.
            Inr (snd (snd st))))))))))"

text \<open>The two terms of \<open>l2_loss\<close>: the local variables \<open>l2_loss\<close> and \<open>l1_loss\<close>.\<close>

definition l2_term :: "ndarray \<Rightarrow> ndarray \<Rightarrow> error + real" where
  "l2_term x x_hat = bind_err (nd_sub x x_hat) (\<lambda>d. Inr (norm2 d))"

definition l1_term ::
    "ndarray \<Rightarrow> ndarray \<Rightarrow> component \<Rightarrow> int list \<Rightarrow> ndarray option \<Rightarrow> ndarray option \<Rightarrow>
     error + real" where
  "l1_term H_logits W_logits component_description frame_indices components traces =
     (case (components, traces) of
        (Some components, Some traces) \<Rightarrow>
          (let i = index component_description;
               bb_i = bounding_box component_description
           in bind_err (nd_row components i) (\<lambda>ci.
              bind_err (nd_row H_logits i) (\<lambda>hl.
              bind_err (np_reshape (nd_sigmoid hl) (roi_shape bb_i)) (\<lambda>hs.
              bind_err (nd_sub ci hs) (\<lambda>dc.
              bind_err (norm1 dc) (\<lambda>nc.
              bind_err (nd_index2 traces i frame_indices) (\<lambda>ti.
              bind_err (nd_index2 W_logits i frame_indices) (\<lambda>wl.
              bind_err (nd_sub ti (nd_sigmoid wl)) (\<lambda>dt.
              bind_err (norm1 dt) (\<lambda>nt.
              Inr (nc + nt)))))))))))
      | _ \<Rightarrow> Inr 0)"

definition l2_loss ::
    "ndarray \<Rightarrow> ndarray \<Rightarrow> ndarray \<Rightarrow> ndarray \<Rightarrow> component list \<Rightarrow> component \<Rightarrow> int list \<Rightarrow>
     real \<Rightarrow> ndarray option \<Rightarrow> ndarray option \<Rightarrow> error + real" where
  "l2_loss H_logits W_logits B_logits x cs component_description frame_indices
           l1_weight components traces =
     (if length (shape H_logits) \<noteq> 2 then Inl AssertionError
      else if length (shape W_logits) \<noteq> 2 then Inl AssertionError
      else if length (shape B_logits) \<noteq> 2 then Inl AssertionError
      else
        bind_err (get_x_hat H_logits W_logits B_logits cs component_description
                    frame_indices) (\<lambda>x_hat.
        bind_err (l2_term x x_hat) (\<lambda>l2.
        bind_err (l1_term H_logits W_logits component_description frame_indices
                    components traces) (\<lambda>l1.
        Inr (l2 + l1_weight * l1)))))"

section \<open>The neighbours' terms in the words of the specification\<close>

text \<open>
  The reading of the reconstruction that claim C3 states, to be compared with
  \<open>get_x_hat\<close>.  \<open>own_contribution\<close> is a source's own squashed contribution,
  \<open>sigmoid(W[c, frames])\<close> outer \<open>sigmoid(H[c])\<close> plus \<open>sigmoid(B[c])\<close>, as a patch over
  the source's own bounding box; \<open>restricted_contribution\<close> restricts the contribution
  of a neighbour \<open>c'\<close> to the intersection of the two boxes in the coordinates of \<open>c'\<close>
  (intersection minus \<open>bb_c'.begin\<close>); \<open>add_neighbour\<close> adds it into the accumulator at
  the intersection in the coordinates of \<open>c\<close> (intersection minus \<open>bb_c.begin\<close>);
  \<open>get_x_hat_spec\<close> does so for every listed neighbour.
\<close>

definition own_contribution ::
    "ndarray \<Rightarrow> ndarray \<Rightarrow> ndarray \<Rightarrow> component \<Rightarrow> int list \<Rightarrow> error + ndarray" where
  "own_contribution H_logits W_logits B_logits c frames =
     bind_err (nd_index2 W_logits (index c) frames) (\<lambda>wl.
     bind_err (nd_row H_logits (index c)) (\<lambda>hl.
     bind_err (nd_row B_logits (index c)) (\<lambda>bl.
     bind_err (nd_add (outer (nd_sigmoid wl) (nd_sigmoid hl)) (nd_sigmoid bl)) (\<lambda>patch.
     np_reshape patch (- 1 # roi_shape (bounding_box c))))))"

definition restricted_contribution ::
    "ndarray \<Rightarrow> ndarray \<Rightarrow> ndarray \<Rightarrow> roi \<Rightarrow> component \<Rightarrow> int list \<Rightarrow> error + ndarray" where
  "restricted_contribution H_logits W_logits B_logits bb_c c' frames =
     bind_err (own_contribution H_logits W_logits B_logits c' frames) (\<lambda>patch.
     nd_slice patch
       (Slice None None #
        roi_slices (roi_sub (intersect bb_c (bounding_box c')) (roi_begin (bounding_box c')))))"

definition add_neighbour ::
    "ndarray \<Rightarrow> ndarray \<Rightarrow> ndarray \<Rightarrow> roi \<Rightarrow> int list \<Rightarrow> component \<Rightarrow> ndarray \<Rightarrow>
     error + ndarray" where
  "add_neighbour H_logits W_logits B_logits bb_c frames c' x_hat =
     bind_err (restricted_contribution H_logits W_logits B_logits bb_c c' frames) (\<lambda>u.
     at_add x_hat
       (Slice None None # roi_slices (roi_sub (intersect bb_c (bounding_box c')) (roi_begin bb_c)))
       u)"

definition get_x_hat_spec ::
    "ndarray \<Rightarrow> ndarray \<Rightarrow> ndarray \<Rightarrow> component list \<Rightarrow> component \<Rightarrow> int list \<Rightarrow>
     error + ndarray" where
  "get_x_hat_spec H_logits W_logits B_logits cs c frames =
     bind_err (own_contribution H_logits W_logits B_logits c frames)
       (fold_err (\<lambda>p. add_neighbour H_logits W_logits B_logits (bounding_box c) frames (cs ! p))
          (overlapping_components c))"

section \<open>Groups of connected components (groups.py)\<close>

text \<open>
  \<open>networkx.Graph\<close>: the nodes in insertion order and, for every node, its neighbours
  in insertion order.  The nodes of the graph of \<open>get_groups\<close> are component objects,
  that is, positions in the list of component descriptions.
\<close>

record graph =
  nodes :: "nat list"
  adj :: "nat \<Rightarrow> nat list"

definition Graph :: graph where
  "Graph = \<lparr>nodes = [], adj = (\<lambda>_. [])\<rparr>"

definition add_key :: "nat \<Rightarrow> nat list \<Rightarrow> nat list" where
  "add_key v xs = (if v \<in> set xs then xs else xs @ [v])"

definition add_node :: "nat \<Rightarrow> graph \<Rightarrow> graph" where
  "add_node v G = G\<lparr>nodes := add_key v (nodes G)\<rparr>"

definition add_nodes_from :: "nat list \<Rightarrow> graph \<Rightarrow> graph" where
  "add_nodes_from vs G = fold add_node vs G"

definition add_edge :: "nat \<times> nat \<Rightarrow> graph \<Rightarrow> graph" where
  "add_edge e G =
     (case e of (u, v) \<Rightarrow>
        let G1 = add_node v (add_node u G);
            a1 = (adj G1)(u := add_key v (adj G1 u));
            a2 = a1(v := add_key u (a1 v))
        in G1\<lparr>adj := a2\<rparr>)"

definition add_edges_from :: "(nat \<times> nat) list \<Rightarrow> graph \<Rightarrow> graph" where
  "add_edges_from es G = fold add_edge es G"

text \<open>
  \<open>networkx.connected_components\<close> goes through the nodes in order; a node not seen so
  far starts a component, the set of the nodes reachable from it, which
  \<open>_plain_bfs\<close> collects (here with a work list: a node is visited once, its
  neighbours are put on the list; neighbours of a graph are nodes of the graph).
\<close>

function reach :: "graph \<Rightarrow> nat list \<Rightarrow> nat list \<Rightarrow> nat list" where
  "reach G [] seen = seen"
| "reach G (v # todo) seen =
     (if v \<in> set seen \<or> v \<notin> set (nodes G) then reach G todo seen
      else reach G (adj G v @ todo) (seen @ [v]))"
  by pat_completeness auto
termination
proof (relation "measures [\<lambda>(G, todo, seen). card (set (nodes G) - set seen),
                           \<lambda>(G, todo, seen). length todo]", goal_cases)
  case 1
  show ?case by simp
next
  case (2 G v todo seen)
  then show ?case by simp
next
  case (3 G v todo seen)
  then have "set (nodes G) - set (seen @ [v]) \<subset> set (nodes G) - set seen"
    by auto
  then have "card (set (nodes G) - set (seen @ [v])) < card (set (nodes G) - set seen)"
    by (intro psubset_card_mono) auto
  then show ?case by simp
qed

definition plain_bfs :: "graph \<Rightarrow> nat \<Rightarrow> nat list" where
  "plain_bfs G source = reach G [source] []"

fun components_from :: "graph \<Rightarrow> nat list \<Rightarrow> nat list \<Rightarrow> nat list list" where
  "components_from G [] seen = []"
| "components_from G (v # vs) seen =
     (if v \<in> set seen then components_from G vs seen
      else plain_bfs G v # components_from G vs (seen @ plain_bfs G v))"

definition connected_components :: "graph \<Rightarrow> nat list list" where
  "connected_components G = components_from G (nodes G) []"

text \<open>
  \<open>get_groups\<close>.  \<open>read_dataset\<close> and \<open>create_component_description\<close> are not among
  the sources, so the list of component descriptions they produce is the argument.
  A component of the graph is a Python set of objects, and \<open>list(c)\<close> lists it in the
  iteration order of that set, which depends on the objects' addresses: \<open>set_order\<close>
  is that order, a function that lists a set given as a list.
  \<open>connection_dict\<close>, the graph and the index pairing are the local variables of the
  source.
\<close>

definition connection_dict :: "component list \<Rightarrow> (nat \<times> nat list) list" where
  "connection_dict component_descriptions =
     map (\<lambda>p. (p, overlapping_components (component_descriptions ! p)))
         [0..<length component_descriptions]"

definition overlap_graph :: "component list \<Rightarrow> graph" where
  "overlap_graph component_descriptions =
     fold (\<lambda>(c, overlaps) G. add_edges_from (zip (replicate (length overlaps) c) overlaps) G)
          (connection_dict component_descriptions)
          (add_nodes_from (map fst (connection_dict component_descriptions)) Graph)"

definition pair_groups ::
    "component list \<Rightarrow> nat list list \<Rightarrow> (nat \<rightharpoonup> nat)" where
  "pair_groups component_descriptions groups =
     fold (\<lambda>(group_index, group) m.
             fold (\<lambda>c m. m(index (component_descriptions ! c) \<mapsto> group_index)) group m)
          (enumerate 0 groups) Map.empty"

definition get_groups ::
    "(nat list \<Rightarrow> nat list) \<Rightarrow> component list \<Rightarrow> (nat \<rightharpoonup> nat) \<times> nat list list" where
  "get_groups set_order component_descriptions =
     (let G = overlap_graph component_descriptions;
          groups = map set_order (connected_components G);
          component_group_index_pairings = pair_groups component_descriptions groups
      in (component_group_index_pairings, groups))"

text \<open>The index sets of the groups: every component replaced by its index.\<close>

definition group_indices :: "component list \<Rightarrow> nat list list \<Rightarrow> nat list list" where
  "group_indices cds groups = map (map (\<lambda>c. index (cds ! c))) groups"

text \<open>
  Notions for the proofs: the edge relation of a graph, the invariant of the graphs
  that \<open>add_node\<close> and \<open>add_edge\<close> build, and the index pairing started at any group
  number and dictionary.
\<close>

definition edges :: "graph \<Rightarrow> (nat \<times> nat) set" where
  "edges G = {(a, b). b \<in> set (adj G a)}"

definition graph_ok :: "graph \<Rightarrow> bool" where
  "graph_ok G = (distinct (nodes G) \<and> (\<forall>a. set (adj G a) \<subseteq> set (nodes G)) \<and>
     (\<forall>a b. b \<in> set (adj G a) \<longrightarrow> a \<in> set (adj G b)))"

definition pair_from ::
    "(nat \<Rightarrow> nat) \<Rightarrow> nat \<Rightarrow> nat list list \<Rightarrow> (nat \<rightharpoonup> nat) \<Rightarrow> (nat \<rightharpoonup> nat)" where
  "pair_from f k gs m =
     fold (\<lambda>(group_index, group) m. fold (\<lambda>c m. m(f c \<mapsto> group_index)) group m)
          (enumerate k gs) m"

section \<open>Concrete inputs\<close>

text \<open>A box of 2 by 2 inside a box of 100 by 100, both at the origin.\<close>

definition small_box :: roi where
  "small_box = Roi [0, 0] [2, 2]"

definition large_box :: roi where
  "large_box = Roi [0, 0] [100, 100]"

definition small_c :: component where
  "small_c = Component small_box 0"

definition large_c :: component where
  "large_c = Component large_box 1"

text \<open>A box with no extent in its first dimension, and one with a negative extent.\<close>

definition flat_box :: roi where
  "flat_box = Roi [0, 0] [0, 5]"

definition negative_box :: roi where
  "negative_box = Roi [3, 3] [- 1, 2]"

text \<open>
  One component with a box of one pixel; \<open>H\<close>, \<open>W\<close> and \<open>B\<close> of shape \<open>(1, 1)\<close> with the
  logit 0, whose sigmoid is \<open>1/2\<close>, so that the reconstruction is \<open>1/2 * 1/2 + 1/2\<close>.
\<close>

definition pixel_c :: component where
  "pixel_c = Component (Roi [0] [1]) 0"

definition zero_logits :: ndarray where
  "zero_logits = \<lparr>shape = [1, 1], data = [0]\<rparr>"

definition pixel_x_hat :: ndarray where
  "pixel_x_hat = \<lparr>shape = [1, 1], data = [3 / 4]\<rparr>"

definition pixel_x :: ndarray where
  "pixel_x = \<lparr>shape = [1, 1], data = [7 / 4]\<rparr>"

definition ones_reference :: ndarray where
  "ones_reference = \<lparr>shape = [1, 1], data = [1]\<rparr>"

definition vector_logits :: ndarray where
  "vector_logits = \<lparr>shape = [3], data = [0, 0, 0]\<rparr>"

definition cube_logits :: ndarray where
  "cube_logits = \<lparr>shape = [1, 1, 1], data = [0]\<rparr>"

text \<open>
  The scenario of the specification: \<open>A = [0,10) x [0,10)\<close>, \<open>B = [5,15) x [0,10)\<close>,
  which overlaps \<open>A\<close>, and \<open>C = [100,110) x [100,110)\<close>, which is isolated; and the
  components \<open>create_components\<close> makes of them.
\<close>

definition box_A :: roi where
  "box_A = Roi [0, 0] [10, 10]"

definition box_B :: roi where
  "box_B = Roi [5, 0] [10, 10]"

definition box_C :: roi where
  "box_C = Roi [100, 100] [10, 10]"

definition abc :: "component list" where
  "abc = [\<lparr>bounding_box = box_A, index = 0, overlapping_components = [1]\<rparr>,
          \<lparr>bounding_box = box_B, index = 1, overlapping_components = [0]\<rparr>,
          \<lparr>bounding_box = box_C, index = 2, overlapping_components = []\<rparr>]"

definition comp_A :: component where
  "comp_A = Component box_A 0"

definition comp_B :: component where
  "comp_B = Component box_B 1"

definition comp_C :: component where
  "comp_C = Component box_C 2"

text \<open>
  Reconstruction inputs.  Two boxes of six pixels and different shapes, 2 by 3 and
  3 by 2, at the origin, with \<open>H\<close> marking one pixel of the second source; two boxes
  of shape 1 by 2 that share one pixel; a box far from the first one, listed as its
  neighbour all the same; and two segments that do not meet.
\<close>

definition wide_box :: roi where
  "wide_box = Roi [0, 0] [2, 3]"

definition tall_box :: roi where
  "tall_box = Roi [0, 0] [3, 2]"

definition wide_tall :: "component list" where
  "wide_tall = [\<lparr>bounding_box = wide_box, index = 0, overlapping_components = [1]\<rparr>,
                \<lparr>bounding_box = tall_box, index = 1, overlapping_components = [0]\<rparr>]"

definition marked_H :: ndarray where
  "marked_H = \<lparr>shape = [2, 6], data = [0, 0, 0, 0, 0, 0,  0, 0, 1, 0, 0, 0]\<rparr>"

definition zeros_2_6 :: ndarray where
  "zeros_2_6 = \<lparr>shape = [2, 6], data = [0, 0, 0, 0, 0, 0,  0, 0, 0, 0, 0, 0]\<rparr>"

definition zeros_2_1 :: ndarray where
  "zeros_2_1 = \<lparr>shape = [2, 1], data = [0, 0]\<rparr>"

definition left_box :: roi where
  "left_box = Roi [0, 0] [1, 2]"

definition right_box :: roi where
  "right_box = Roi [0, 1] [1, 2]"

definition far_box :: roi where
  "far_box = Roi [5, 5] [1, 2]"

definition left_right :: "component list" where
  "left_right = [\<lparr>bounding_box = left_box, index = 0, overlapping_components = [1]\<rparr>,
                 \<lparr>bounding_box = right_box, index = 1, overlapping_components = [0]\<rparr>]"

definition stale :: "component list" where
  "stale = [\<lparr>bounding_box = left_box, index = 0, overlapping_components = [1]\<rparr>,
            \<lparr>bounding_box = far_box, index = 1, overlapping_components = [0]\<rparr>]"

definition zeros_2_2 :: ndarray where
  "zeros_2_2 = \<lparr>shape = [2, 2], data = [0, 0, 0, 0]\<rparr>"

definition segment :: roi where
  "segment = Roi [0] [2]"

definition far_segment :: roi where
  "far_segment = Roi [7] [2]"

definition stale_segments :: "component list" where
  "stale_segments = [\<lparr>bounding_box = segment, index = 0, overlapping_components = [1]\<rparr>,
                     \<lparr>bounding_box = far_segment, index = 1, overlapping_components = []\<rparr>]"

section \<open>Basic facts\<close>

lemma bind_err_simps [simp]:
  "bind_err (Inl e) f = Inl e"
  "bind_err (Inr v) f = f v"
  by (simp_all add: bind_err_def)

lemma sigmoid_zero: "sigmoid 0 = 1 / 2"
  by (simp add: sigmoid_def)

lemma broadcast_rev_same: "broadcast_rev xs xs = Some xs"
  by (induction xs) simp_all

lemma broadcast_shapes_same: "broadcast_shapes s s = Some s"
  by (simp add: broadcast_shapes_def broadcast_rev_same)

lemma upt_three: "[0..<3] = [0, 1, 2]"
  by (simp add: upt_rec)

lemma upt_two: "[0..<2] = [0, 1]"
  by (simp add: upt_rec)

lemma construct_components_length:
  "length (construct_components bbs) = length bbs"
  by (simp add: construct_components_def)

lemma construct_components_nth:
  "i < length bbs \<Longrightarrow> construct_components bbs ! i = Component (bbs ! i) i"
  by (simp add: construct_components_def nth_enumerate_eq)

section \<open>The radius of the proximity query (claims C1 and C2)\<close>

lemma nested_construct:
  "construct_components [small_box, large_box] = [small_c, large_c]"
  by (simp add: construct_components_def small_c_def large_c_def)

lemma nested_fields:
  "index small_c = 0" "index large_c = 1"
  "bounding_box small_c = small_box" "bounding_box large_c = large_box"
  by (simp_all add: small_c_def large_c_def Component_def)

lemma nested_diagonals:
  "get_diagonal_length small_c = sqrt 8"
  "get_diagonal_length large_c = sqrt 20000"
  by (simp_all add: get_diagonal_length_def nested_fields small_box_def large_box_def
      Roi_def roi_begin_def roi_end_def)

lemma nested_centers:
  "roi_center small_box = [1, 1]" "roi_center large_box = [50, 50]"
  by (simp_all add: roi_center_def small_box_def large_box_def Roi_def roi_begin_def
      trunc_half_def)

lemma nested_distances:
  "distance [1, 1] [50, 50] = sqrt 4802" "distance [50, 50] [1, 1] = sqrt 4802"
  "distance [1, 1] [1, 1] = 0" "distance [50, 50] [50, 50] = 0"
  by (simp_all add: distance_def)

lemma large_center_out_of_reach: "\<not> sqrt 4802 \<le> sqrt 8 + 1"
proof -
  have "sqrt 8 \<le> 3" by (rule real_le_lsqrt) simp_all
  moreover have "49 \<le> sqrt 4802" by (rule real_le_rsqrt) simp
  ultimately show ?thesis by linarith
qed

lemma small_center_in_reach: "sqrt 4802 \<le> sqrt 20000 + 1"
proof -
  have "sqrt 4802 \<le> sqrt 20000" by simp
  then show ?thesis by linarith
qed

lemma nested_intersects:
  "intersects large_box small_box" "intersects small_box large_box"
  by (simp_all add: intersects_def roi_empty_def roi_size_def small_box_def large_box_def
      Roi_def roi_begin_def roi_end_def)

lemma find_from_small:
  "find_overlapping_components small_c [small_c, large_c] [[1, 1], [50, 50]] = Inr []"
  by (simp add: find_overlapping_components_def Let_def query_ball_point_def upt_two
      nested_fields nested_centers nested_distances nested_diagonals
      large_center_out_of_reach)

lemma find_from_large:
  "find_overlapping_components large_c [small_c, large_c] [[1, 1], [50, 50]] = Inr [0]"
  by (simp add: find_overlapping_components_def Let_def query_ball_point_def upt_two
      nested_fields nested_centers nested_distances nested_diagonals
      small_center_in_reach nested_intersects)

text \<open>
  Claim C1, evaluated where it fails.  The claim: \<open>find_overlapping_components\<close> returns
  every other source whose box shares volume with the box of \<open>c\<close>, the radius
  (diagonal of \<open>c\<close>) + 1 reaching the center of every intersecting neighbour, larger
  ones included.  For the 2 by 2 box inside the 100 by 100 box the two boxes intersect,
  the center of the large one is \<open>sqrt 4802\<close> away from the center of the small one,
  beyond the radius \<open>sqrt 8 + 1\<close>, and the call for the small component returns the
  empty list.
\<close>

theorem find_overlapping_components_misses_larger_box:
  "intersects (bounding_box large_c) (bounding_box small_c) \<and>
   index large_c \<noteq> index small_c \<and>
   KDTree (map (\<lambda>c. roi_center (bounding_box c)) [small_c, large_c])
     = Inr [[1, 1], [50, 50]] \<and>
   find_overlapping_components small_c [small_c, large_c] [[1, 1], [50, 50]] = Inr []"
  by (simp add: nested_fields nested_intersects nested_centers KDTree_def find_from_small)

text \<open>
  Claim C2, evaluated where it fails.  The claim: for all distinct sources A and B, A is
  in the overlap list of B if and only if B is in the overlap list of A, and no source
  is in its own list.  \<open>create_components\<close> on the 2 by 2 box (position 0) and the 100 by
  100 box (position 1) gives the small component no overlap and the large component
  the overlap list \<open>[0]\<close>: the small one is in the list of the large one, the large one
  is not in the list of the small one.  (That no source is in its own list holds:
  \<open>create_components_irreflexive\<close> below.)
\<close>

theorem create_components_overlaps_not_symmetric:
  "create_components [small_box, large_box] =
     Inr [small_c\<lparr>overlapping_components := []\<rparr>,
          large_c\<lparr>overlapping_components := [0]\<rparr>]"
  by (simp add: create_components_def nested_construct Let_def nested_fields nested_centers
      KDTree_def find_from_small find_from_large store_overlaps_def)

section \<open>The loss (claims C6, C8 and C10)\<close>

lemma sum_sq_diff_same: "sum_list (map (\<lambda>v. v ^ 2) (map2 (-) ds ds)) = (0::real)"
  by (induction ds) simp_all

lemma norm2_diff_same: "norm2 \<lparr>shape = s, data = map2 (-) ds ds\<rparr> = 0"
  unfolding norm2_def using sum_sq_diff_same[of ds] by simp

lemma l2_term_same: "l2_term x x = Inr 0"
  by (simp add: l2_term_def nd_sub_def nd_binop_def broadcast_shapes_same norm2_diff_same)

lemmas array_defs =
  nd_index2_def nd_row_def nd_take_def norm_index_def block_def nd_sigmoid_def nd_map_def
  outer_def nd_size_def np_reshape_def nd_add_def nd_sub_def nd_binop_def
  broadcast_shapes_def

lemma pixel_get_x_hat:
  "get_x_hat zero_logits zero_logits zero_logits [pixel_c] pixel_c [0] = Inr pixel_x_hat"
  by (simp add: get_x_hat_def zero_logits_def pixel_c_def pixel_x_hat_def Component_def
      Roi_def array_defs sigmoid_zero Let_def)

lemma pixel_l1_term:
  "l1_term zero_logits zero_logits pixel_c [0] (Some ones_reference) (Some zero_logits)
     = Inr 1"
  by (simp add: l1_term_def zero_logits_def pixel_c_def ones_reference_def Component_def
      Roi_def array_defs sigmoid_zero Let_def norm1_def)

lemma pixel_l2_term: "l2_term pixel_x pixel_x_hat = Inr 1"
  by (simp add: l2_term_def pixel_x_def pixel_x_hat_def array_defs norm2_def)

text \<open>
  Claim C6 as amended: when \<open>H\<close>, \<open>W\<close> or \<open>B\<close> does not have exactly two dimensions,
  \<open>l2_loss\<close> fails with an \<open>AssertionError\<close>, whatever its other arguments are: the three
  assertions come before any computation.
\<close>

theorem l2_loss_shape_assert:
  assumes "length (shape H_logits) \<noteq> 2 \<or> length (shape W_logits) \<noteq> 2 \<or>
           length (shape B_logits) \<noteq> 2"
  shows "l2_loss H_logits W_logits B_logits x cs c frames l1_weight components traces =
           Inl AssertionError"
  using assms by (auto simp: l2_loss_def)

theorem l2_loss_shape_assert_witness:
  "length (shape cube_logits) = 3 \<and>
   l2_loss zero_logits cube_logits zero_logits pixel_x [pixel_c] pixel_c [0] 1 None None =
     Inl AssertionError"
proof -
  have h: "length (shape zero_logits) \<noteq> 2 \<or> length (shape cube_logits) \<noteq> 2 \<or>
           length (shape zero_logits) \<noteq> 2"
    by (simp add: cube_logits_def)
  show ?thesis
    using l2_loss_shape_assert[OF h, of pixel_x "[pixel_c]" pixel_c "[0]" 1 None None]
    by (simp add: cube_logits_def)
qed

text \<open>
  The claim C6 as stated fails: with a one-dimensional \<open>H\<close> the call fails with an
  \<open>AssertionError\<close>, which is not a \<open>ShapeError\<close>.
\<close>

theorem l2_loss_shape_error_counterexample:
  "length (shape vector_logits) = 1 \<and>
   l2_loss vector_logits zero_logits zero_logits pixel_x [pixel_c] pixel_c [0] 1 None None
     = Inl AssertionError \<and>
   l2_loss vector_logits zero_logits zero_logits pixel_x [pixel_c] pixel_c [0] 1 None None
     \<noteq> Inl ShapeError"
  by (simp add: l2_loss_def vector_logits_def)

text \<open>
  Claim C8: if the observed patch \<open>x\<close> is exactly the reconstruction
  \<open>get_x_hat H W B source frames\<close>, then the L2 term is 0 and the loss returned by
  \<open>l2_loss\<close> is \<open>l1_weight\<close> times the l1 term (over the reals, which stand for the
  floating-point numbers of the source).
\<close>

theorem l2_loss_zero_at_reconstruction:
  assumes "length (shape H_logits) = 2" and "length (shape W_logits) = 2"
    and "length (shape B_logits) = 2"
    and "get_x_hat H_logits W_logits B_logits cs c frames = Inr x"
  shows "l2_term x x = Inr 0 \<and>
         l2_loss H_logits W_logits B_logits x cs c frames l1_weight components traces =
           bind_err (l1_term H_logits W_logits c frames components traces)
             (\<lambda>l1. Inr (l1_weight * l1))"
  using assms by (simp add: l2_loss_def l2_term_same)

theorem l2_loss_zero_at_reconstruction_witness:
  "length (shape zero_logits) = 2 \<and>
   get_x_hat zero_logits zero_logits zero_logits [pixel_c] pixel_c [0] = Inr pixel_x_hat \<and>
   l2_term pixel_x_hat pixel_x_hat = Inr 0 \<and>
   l1_term zero_logits zero_logits pixel_c [0] (Some ones_reference) (Some zero_logits)
     = Inr 1 \<and>
   l2_loss zero_logits zero_logits zero_logits pixel_x_hat [pixel_c] pixel_c [0] 3
     (Some ones_reference) (Some zero_logits) = Inr 3"
proof -
  have h: "length (shape zero_logits) = 2"
    by (simp add: zero_logits_def)
  show ?thesis
    using l2_loss_zero_at_reconstruction[OF h h h pixel_get_x_hat, of 3
        "Some ones_reference" "Some zero_logits"]
    by (simp add: h pixel_get_x_hat pixel_l1_term)
qed

text \<open>
  Claim C10: when one of the reference arrays \<open>components\<close> and \<open>traces\<close> is \<open>None\<close>
  (in particular when exactly one is), the l1 term is 0 and the loss returned is the
  L2 term alone: once the three assertions hold, \<open>l2_loss\<close> is the L2 term of \<open>x\<close> and
  the reconstruction.
\<close>

theorem l1_branch_needs_both:
  assumes "components = None \<or> traces = None"
  shows "l1_term H_logits W_logits c frames components traces = Inr 0 \<and>
         l2_loss H_logits W_logits B_logits x cs c frames l1_weight components traces =
           (if length (shape H_logits) = 2 \<and> length (shape W_logits) = 2 \<and>
               length (shape B_logits) = 2
            then bind_err (get_x_hat H_logits W_logits B_logits cs c frames) (l2_term x)
            else Inl AssertionError)"
proof -
  have l1: "l1_term H_logits W_logits c frames components traces = Inr 0"
    using assms by (auto simp: l1_term_def split: option.splits)
  have "bind_err m (\<lambda>l2. Inr (l2 + l1_weight * 0)) = m" for m :: "error + real"
    by (cases m) simp_all
  then have "bind_err (l2_term x xh) (\<lambda>l2. Inr (l2 + l1_weight * 0)) = l2_term x xh" for xh
    by simp
  then show ?thesis
    by (simp add: l2_loss_def l1)
qed

theorem l1_branch_needs_both_witness:
  "(Some ones_reference = None \<or> (None :: ndarray option) = None) \<and>
   l1_term zero_logits zero_logits pixel_c [0] (Some ones_reference) None = Inr 0 \<and>
   l2_loss zero_logits zero_logits zero_logits pixel_x [pixel_c] pixel_c [0] 3
     (Some ones_reference) None = Inr 1"
proof -
  have h: "Some ones_reference = None \<or> (None :: ndarray option) = None"
    by simp
  have s: "length (shape zero_logits) = 2"
    by (simp add: zero_logits_def)
  show ?thesis
    using l1_branch_needs_both[OF h, of zero_logits zero_logits pixel_c "[0]" zero_logits
        pixel_x "[pixel_c]" 3]
    by (simp add: s pixel_get_x_hat pixel_l2_term)
qed

section \<open>Construction of the components (claim C7)\<close>

lemma store_overlaps_fields:
  "length (store_overlaps ovs cs) = length cs \<and>
   map bounding_box (store_overlaps ovs cs) = map bounding_box cs \<and>
   map index (store_overlaps ovs cs) = map index cs"
  unfolding store_overlaps_def
proof (induction ovs arbitrary: cs)
  case Nil
  show ?case by simp
next
  case (Cons a ovs)
  obtain i ov where a: "a = (i, ov)" by (cases a)
  define cs' where "cs' = cs[i := (cs ! i)\<lparr>overlapping_components := ov\<rparr>]"
  have "length cs' = length cs" by (simp add: cs'_def)
  moreover have "map bounding_box cs' = map bounding_box cs"
    by (cases "i < length cs") (auto simp: cs'_def nth_list_update intro!: nth_equalityI)
  moreover have "map index cs' = map index cs"
    by (cases "i < length cs") (auto simp: cs'_def nth_list_update intro!: nth_equalityI)
  ultimately show ?case using Cons.IH[of cs'] by (simp add: a cs'_def)
qed

lemma query_ball_point_bound: "list_all (\<lambda>i. i < length t) (query_ball_point t x r)"
  by (simp add: query_ball_point_def list_all_iff)

lemma find_overlapping_components_ok:
  "length t = length components \<Longrightarrow>
   \<exists>ov. find_overlapping_components c components t = Inr ov"
  using query_ball_point_bound[of t "roi_center (bounding_box c)" "get_diagonal_length c + 1"]
  by (auto simp: find_overlapping_components_def Let_def list_ex_iff list_all_iff)

lemma find_all_ok:
  "length t = length components \<Longrightarrow> \<exists>ovs. find_all cs components t = Inr ovs"
proof (induction cs)
  case Nil
  show ?case by simp
next
  case (Cons c cs)
  then obtain ovs where "find_all cs components t = Inr ovs" by auto
  moreover obtain ov where "find_overlapping_components c components t = Inr ov"
    using find_overlapping_components_ok[OF Cons.prems] by auto
  ultimately show ?case by simp
qed

text \<open>
  Claim C7 as amended: construction validates nothing.  For every non-empty list of
  boxes of one dimension \<open>d\<close>, boxes of zero or negative extent included,
  \<open>create_components\<close> returns components: one per box, in order, each holding its
  box unchanged and its position as index.
\<close>

theorem construction_accepts_any_box:
  assumes "bbs \<noteq> []"
    and "list_all (\<lambda>bb. length (roi_offset bb) = d \<and> length (roi_shape bb) = d) bbs"
  shows "\<exists>cs. create_components bbs = Inr cs \<and> length cs = length bbs \<and>
           map bounding_box cs = bbs \<and> map index cs = [0..<length bbs]"
proof -
  let ?cs = "construct_components bbs"
  let ?centers = "map (\<lambda>c. roi_center (bounding_box c)) ?cs"
  have len: "length ?cs = length bbs" by (simp add: construct_components_def)
  have bb: "map bounding_box ?cs = bbs"
    by (rule nth_equalityI) (simp_all add: len construct_components_nth Component_def)
  have ix: "map index ?cs = [0..<length bbs]"
    by (rule nth_equalityI) (simp_all add: len construct_components_nth Component_def)
  have "\<forall>p \<in> set ?centers. length p = d"
  proof
    fix p assume "p \<in> set ?centers"
    then obtain c where "c \<in> set ?cs" "p = roi_center (bounding_box c)" by auto
    then have "bounding_box c \<in> set bbs" using bb by (metis imageI set_map)
    then show "length p = d" using assms(2) \<open>p = _\<close>
      by (simp add: list_all_iff roi_center_def roi_begin_def)
  qed
  moreover have "?centers \<noteq> []" using assms(1) len by auto
  ultimately have kd: "KDTree ?centers = Inr ?centers"
    by (cases ?centers) (auto simp: KDTree_def list_ex_iff)
  obtain ovs where ovs: "find_all ?cs ?cs ?centers = Inr ovs"
    using find_all_ok[of ?centers ?cs ?cs] by auto
  have "create_components bbs = Inr (store_overlaps ovs ?cs)"
    by (simp add: create_components_def Let_def kd ovs)
  then show ?thesis using store_overlaps_fields[of ovs ?cs] len bb ix by simp
qed

theorem construction_accepts_any_box_witness:
  "[flat_box, negative_box] \<noteq> [] \<and>
   list_all (\<lambda>bb. length (roi_offset bb) = 2 \<and> length (roi_shape bb) = 2)
     [flat_box, negative_box] \<and>
   (\<exists>cs. create_components [flat_box, negative_box] = Inr cs \<and>
      length cs = length [flat_box, negative_box] \<and>
      map bounding_box cs = [flat_box, negative_box] \<and>
      map index cs = [0..<length [flat_box, negative_box]])"
proof -
  have h1: "[flat_box, negative_box] \<noteq> []"
    by simp
  have h2: "list_all (\<lambda>bb. length (roi_offset bb) = 2 \<and> length (roi_shape bb) = 2)
     [flat_box, negative_box]"
    by (simp add: flat_box_def negative_box_def Roi_def)
  show ?thesis
    using construction_accepts_any_box[OF h1 h2] h1 h2 by blast
qed

text \<open>
  The claim C7 as stated fails: the box \<open>[0, 0) x [0, 5)\<close>, of zero extent in its first
  dimension, is constructed into a component and no error is raised.
\<close>

theorem degenerate_box_counterexample:
  "roi_size flat_box = 0 \<and>
   construct_components [flat_box] = [Component flat_box 0] \<and>
   create_components [flat_box] = Inr [Component flat_box 0] \<and>
   create_components [flat_box] \<noteq> Inl DegenerateRegionError"
proof -
  have c: "construct_components [flat_box] = [Component flat_box 0]"
    by (simp add: construct_components_def)
  have f: "find_overlapping_components (Component flat_box 0) [Component flat_box 0]
             [roi_center flat_box] = Inr []"
    by (simp add: find_overlapping_components_def Let_def query_ball_point_def
        Component_def)
  have "create_components [flat_box] = Inr [Component flat_box 0]"
    by (simp add: create_components_def c Let_def KDTree_def)
      (simp add: Component_def f[unfolded Component_def] store_overlaps_def)
  then show ?thesis
    by (simp add: c) (simp add: roi_size_def flat_box_def Roi_def)
qed

subsection \<open>What \<open>create_components\<close> stores\<close>

text \<open>
  The overlap list of the component at position \<open>p\<close>: the positions \<open>q\<close> other than
  \<open>p\<close> whose center is within the radius of the query for \<open>p\<close> and whose box
  intersects the box of \<open>p\<close>.  No component is in its own list; whether \<open>q\<close> is in
  the list of \<open>p\<close> depends on the radius of \<open>p\<close> alone.
\<close>

lemma find_all_value:
  assumes "length t = length components"
  shows "find_all cs components t =
     Inr (map (\<lambda>c. (index c,
            filter (\<lambda>i. index (components ! i) \<noteq> index c \<and>
                         intersects (bounding_box (components ! i)) (bounding_box c))
              (query_ball_point t (roi_center (bounding_box c)) (get_diagonal_length c + 1))))
          cs)"
proof (induction cs)
  case Nil
  show ?case by simp
next
  case (Cons c cs)
  have "\<not> list_ex (\<lambda>i. length components \<le> i)
          (query_ball_point t (roi_center (bounding_box c)) (get_diagonal_length c + 1))"
    using query_ball_point_bound[of t "roi_center (bounding_box c)" "get_diagonal_length c + 1"]
      assms by (auto simp: list_ex_iff list_all_iff)
  then show ?case by (simp add: Cons.IH find_overlapping_components_def Let_def)
qed

lemma store_overlaps_untouched:
  assumes "p \<notin> fst ` set ovs"
  shows "store_overlaps ovs cs ! p = cs ! p"
  using assms unfolding store_overlaps_def
proof (induction ovs arbitrary: cs)
  case Nil
  show ?case by simp
next
  case (Cons a ovs)
  obtain i ov where a: "a = (i, ov)" by (cases a)
  have "i \<noteq> p" "p \<notin> fst ` set ovs" using Cons.prems by (auto simp: a)
  then show ?case using Cons.IH[of "cs[i := (cs ! i)\<lparr>overlapping_components := ov\<rparr>]"]
    by (simp add: a)
qed

lemma store_overlaps_stored:
  assumes "distinct (map fst ovs)" and "(p, ov) \<in> set ovs" and "p < length cs"
  shows "store_overlaps ovs cs ! p = (cs ! p)\<lparr>overlapping_components := ov\<rparr>"
  using assms
proof (induction ovs arbitrary: cs)
  case Nil
  then show ?case by simp
next
  case (Cons a ovs)
  obtain i ov' where a: "a = (i, ov')" by (cases a)
  let ?cs = "cs[i := (cs ! i)\<lparr>overlapping_components := ov'\<rparr>]"
  have step: "store_overlaps (a # ovs) cs = store_overlaps ovs ?cs"
    by (simp add: store_overlaps_def a)
  show ?case
  proof (cases "i = p")
    case True
    have "p \<notin> fst ` set ovs" using Cons.prems(1) by (simp add: a True)
    moreover from this Cons.prems(2) have "ov' = ov" by (force simp: a True)
    ultimately show ?thesis
      using Cons.prems(3) by (simp add: step store_overlaps_untouched True)
  next
    case False
    then have m: "(p, ov) \<in> set ovs" using Cons.prems(2) by (simp add: a)
    have d: "distinct (map fst ovs)" using Cons.prems(1) by simp
    have l: "p < length ?cs" using Cons.prems(3) by simp
    have "store_overlaps ovs ?cs ! p = (?cs ! p)\<lparr>overlapping_components := ov\<rparr>"
      using d m l by (rule Cons.IH)
    then show ?thesis using False by (simp add: step)
  qed
qed

lemma create_components_overlaps:
  assumes "create_components bbs = Inr cs" and "p < length bbs"
  shows "overlapping_components (cs ! p) =
     filter (\<lambda>q. q \<noteq> p \<and> intersects (bbs ! q) (bbs ! p))
       (query_ball_point (map roi_center bbs) (roi_center (bbs ! p))
          (get_diagonal_length (Component (bbs ! p) p) + 1))"
proof -
  let ?comps = "construct_components bbs"
  let ?t = "map (\<lambda>c. roi_center (bounding_box c)) ?comps"
  let ?F = "\<lambda>c. filter (\<lambda>i. index (?comps ! i) \<noteq> index c \<and>
                         intersects (bounding_box (?comps ! i)) (bounding_box c))
              (query_ball_point ?t (roi_center (bounding_box c)) (get_diagonal_length c + 1))"
  let ?ovs = "map (\<lambda>c. (index c, ?F c)) ?comps"
  have len: "length ?comps = length bbs" by (rule construct_components_length)
  have t: "?t = map roi_center bbs"
    by (rule nth_equalityI) (simp_all add: len construct_components_nth Component_def)
  have kd: "KDTree ?t = Inr ?t"
    using assms(1) by (auto simp: create_components_def Let_def KDTree_def split: if_splits)
  have fa: "find_all ?comps ?comps ?t = Inr ?ovs"
    by (rule find_all_value) simp
  have cs: "cs = store_overlaps ?ovs ?comps"
    using assms(1) by (simp add: create_components_def Let_def kd fa)
  have keys: "map fst ?ovs = [0..<length bbs]"
    by (rule nth_equalityI) (simp_all add: len construct_components_nth Component_def)
  have mem: "(p, ?F (?comps ! p)) \<in> set ?ovs"
  proof -
    have "?comps ! p \<in> set ?comps" using assms(2) len by simp
    moreover have "index (?comps ! p) = p"
      using assms(2) by (simp add: construct_components_nth Component_def)
    ultimately show ?thesis by force
  qed
  have dk: "distinct (map fst ?ovs)"
    unfolding keys by simp
  have "cs ! p = (?comps ! p)\<lparr>overlapping_components := ?F (?comps ! p)\<rparr>"
    unfolding cs using dk mem
    by (rule store_overlaps_stored) (simp add: assms(2) len)
  moreover have "?F (?comps ! p) =
     filter (\<lambda>q. q \<noteq> p \<and> intersects (bbs ! q) (bbs ! p))
       (query_ball_point (map roi_center bbs) (roi_center (bbs ! p))
          (get_diagonal_length (Component (bbs ! p) p) + 1))"
  proof -
    have "filter (\<lambda>i. index (?comps ! i) \<noteq> p \<and> intersects (bounding_box (?comps ! i)) (bbs ! p))
            (query_ball_point (map roi_center bbs) (roi_center (bbs ! p)) r)
        = filter (\<lambda>q. q \<noteq> p \<and> intersects (bbs ! q) (bbs ! p))
            (query_ball_point (map roi_center bbs) (roi_center (bbs ! p)) r)" for r
      by (rule filter_cong)
         (auto simp: query_ball_point_def construct_components_nth Component_def)
    then show ?thesis
      using assms(2) by (simp add: t construct_components_nth) (simp add: Component_def)
  qed
  ultimately show ?thesis by simp
qed

lemma create_components_irreflexive:
  assumes "create_components bbs = Inr cs" and "p < length bbs"
  shows "p \<notin> set (overlapping_components (cs ! p))"
  by (simp add: create_components_overlaps[OF assms])

section \<open>Groups (claims C4 and C9)\<close>

subsection \<open>The graph\<close>

lemma add_key_set [simp]: "set (add_key v xs) = insert v (set xs)"
  by (auto simp: add_key_def)

lemma add_key_distinct [simp]: "distinct (add_key v xs) = distinct xs"
  by (auto simp: add_key_def)

lemma add_node_nodes: "set (nodes (add_node v G)) = insert v (set (nodes G))"
  by (simp add: add_node_def)

lemma add_node_adj [simp]: "adj (add_node v G) = adj G"
  by (simp add: add_node_def)

lemma add_node_ok: "graph_ok G \<Longrightarrow> graph_ok (add_node v G)"
  by (auto simp: graph_ok_def add_node_def)

lemma add_nodes_from_ok: "graph_ok G \<Longrightarrow> graph_ok (add_nodes_from vs G)"
  unfolding add_nodes_from_def by (induction vs arbitrary: G) (simp_all add: add_node_ok)

lemma add_nodes_from_nodes: "set (nodes (add_nodes_from vs G)) = set vs \<union> set (nodes G)"
  unfolding add_nodes_from_def by (induction vs arbitrary: G) (auto simp: add_node_nodes)

lemma add_edge_nodes: "set (nodes (add_edge (u, v) G)) = {u, v} \<union> set (nodes G)"
  by (auto simp: add_edge_def Let_def add_node_nodes)

lemma add_edge_adj:
  "set (adj (add_edge (u, v) G) a) =
     set (adj G a) \<union> (if a = u then {v} else {}) \<union> (if a = v then {u} else {})"
  by (auto simp: add_edge_def Let_def)

lemma add_edge_distinct: "distinct (nodes (add_edge (u, v) G)) = distinct (nodes G)"
  by (simp add: add_edge_def Let_def add_node_def)

lemma add_edge_ok:
  assumes "graph_ok G"
  shows "graph_ok (add_edge (u, v) G)"
  unfolding graph_ok_def
proof (intro conjI allI impI)
  show "distinct (nodes (add_edge (u, v) G))"
    using assms by (simp add: add_edge_distinct graph_ok_def)
next
  fix a
  show "set (adj (add_edge (u, v) G) a) \<subseteq> set (nodes (add_edge (u, v) G))"
    using assms unfolding graph_ok_def add_edge_adj add_edge_nodes by auto
next
  fix a b
  assume "b \<in> set (adj (add_edge (u, v) G) a)"
  then show "a \<in> set (adj (add_edge (u, v) G) b)"
    using assms unfolding graph_ok_def add_edge_adj by (auto split: if_splits)
qed

lemma add_edges_from_ok: "graph_ok G \<Longrightarrow> graph_ok (add_edges_from es G)"
  unfolding add_edges_from_def
proof (induction es arbitrary: G)
  case Nil
  then show ?case by simp
next
  case (Cons e es)
  then show ?case by (cases e) (simp add: add_edge_ok)
qed

lemma add_edges_from_nodes:
  "set (nodes (add_edges_from es G)) = fst ` set es \<union> snd ` set es \<union> set (nodes G)"
  unfolding add_edges_from_def
proof (induction es arbitrary: G)
  case Nil
  then show ?case by simp
next
  case (Cons e es)
  obtain u v where e: "e = (u, v)" by (cases e)
  show ?case using Cons[of "add_edge (u, v) G"] by (auto simp: e add_edge_nodes)
qed

lemma Graph_ok: "graph_ok Graph"
  by (simp add: graph_ok_def Graph_def)

lemma fold_edges_ok:
  "graph_ok G \<Longrightarrow>
   graph_ok (fold (\<lambda>(c, overlaps) G.
       add_edges_from (zip (replicate (length overlaps) c) overlaps) G) d G)"
proof (induction d arbitrary: G)
  case Nil
  then show ?case by simp
next
  case (Cons x d)
  then show ?case by (cases x) (simp add: add_edges_from_ok)
qed

lemma fold_edges_nodes:
  "set (nodes (fold (\<lambda>(c, overlaps) G.
       add_edges_from (zip (replicate (length overlaps) c) overlaps) G) d G))
   \<subseteq> fst ` set d \<union> \<Union> (set ` snd ` set d) \<union> set (nodes G) \<and>
   set (nodes G) \<subseteq> set (nodes (fold (\<lambda>(c, overlaps) G.
       add_edges_from (zip (replicate (length overlaps) c) overlaps) G) d G))"
proof (induction d arbitrary: G)
  case Nil
  then show ?case by simp
next
  case (Cons x d)
  obtain c ov where x: "x = (c, ov)" by (cases x)
  let ?G1 = "add_edges_from (zip (replicate (length ov) c) ov) G"
  have n1: "set (nodes ?G1) \<subseteq> {c} \<union> set ov \<union> set (nodes G)"
    unfolding add_edges_from_nodes by (auto dest: set_zip_leftD set_zip_rightD)
  have n2: "set (nodes G) \<subseteq> set (nodes ?G1)"
    unfolding add_edges_from_nodes by auto
  show ?case using Cons[of ?G1] n1 n2 by (simp add: x) blast
qed

lemma overlap_graph_ok: "graph_ok (overlap_graph cds)"
  unfolding overlap_graph_def by (intro fold_edges_ok add_nodes_from_ok Graph_ok)

lemma overlap_graph_nodes:
  assumes "\<forall>p<length cds. \<forall>q\<in>set (overlapping_components (cds ! p)). q < length cds"
  shows "set (nodes (overlap_graph cds)) = {0..<length cds}"
proof -
  let ?d = "connection_dict cds"
  let ?G0 = "add_nodes_from (map fst ?d) Graph"
  have fst_d: "fst ` set ?d = {0..<length cds}"
    by (force simp: connection_dict_def)
  have g0: "set (nodes ?G0) = {0..<length cds}"
    unfolding add_nodes_from_nodes using fst_d by (simp add: Graph_def)
  have snd_d: "\<Union> (set ` snd ` set ?d) \<subseteq> {0..<length cds}"
    using assms by (auto simp: connection_dict_def)
  show ?thesis
    using fold_edges_nodes[where G = ?G0 and d = ?d] fst_d g0 snd_d unfolding overlap_graph_def by blast
qed

subsection \<open>Reachable nodes and connected components\<close>

lemma reach_keeps_seen: "set seen \<subseteq> set (reach G todo seen)"
  by (induction G todo seen rule: reach.induct) auto

lemma reach_in_nodes: "set (reach G todo seen) \<subseteq> set seen \<union> set (nodes G)"
  by (induction G todo seen rule: reach.induct) auto

lemma reach_distinct: "distinct seen \<Longrightarrow> distinct (reach G todo seen)"
  by (induction G todo seen rule: reach.induct) auto

lemma reach_visits_todo:
  "t \<in> set todo \<Longrightarrow> t \<in> set (nodes G) \<Longrightarrow> t \<in> set (reach G todo seen)"
proof (induction G todo seen rule: reach.induct)
  case (1 G seen)
  then show ?case by simp
next
  case (2 G v todo seen)
  show ?case
  proof (cases "v \<in> set seen \<or> v \<notin> set (nodes G)")
    case True
    show ?thesis
    proof (cases "t = v")
      case True
      with \<open>v \<in> set seen \<or> v \<notin> set (nodes G)\<close> 2(4) have "t \<in> set seen" by auto
      then show ?thesis using reach_keeps_seen by blast
    next
      case False
      with 2(3) have "t \<in> set todo" by simp
      with 2(1)[OF True _ 2(4)] True show ?thesis by simp
    qed
  next
    case False
    show ?thesis
    proof (cases "t = v")
      case True
      have "t \<in> set (seen @ [v])" using True by simp
      then have "t \<in> set (reach G (adj G v @ todo) (seen @ [v]))"
        using reach_keeps_seen by blast
      then show ?thesis using False by simp
    next
      case F: False
      with 2(3) have "t \<in> set (adj G v @ todo)" by simp
      with 2(2)[OF False _ 2(4)] False show ?thesis by simp
    qed
  qed
qed

lemma reach_closed:
  assumes "\<forall>u\<in>set seen. \<forall>w\<in>set (adj G u). w \<in> set (nodes G) \<longrightarrow> w \<in> set seen \<union> set todo"
  shows "\<forall>u\<in>set (reach G todo seen). \<forall>w\<in>set (adj G u).
           w \<in> set (nodes G) \<longrightarrow> w \<in> set (reach G todo seen)"
  using assms
proof (induction G todo seen rule: reach.induct)
  case (1 G seen)
  then show ?case by simp
next
  case (2 G v todo seen)
  show ?case
  proof (cases "v \<in> set seen \<or> v \<notin> set (nodes G)")
    case True
    have "\<forall>u\<in>set seen. \<forall>w\<in>set (adj G u). w \<in> set (nodes G) \<longrightarrow> w \<in> set seen \<union> set todo"
      using 2(3) True by auto
    from 2(1)[OF True this] True show ?thesis by simp
  next
    case False
    have "\<forall>u\<in>set (seen @ [v]). \<forall>w\<in>set (adj G u).
            w \<in> set (nodes G) \<longrightarrow> w \<in> set (seen @ [v]) \<union> set (adj G v @ todo)"
      using 2(3) by auto
    from 2(2)[OF False this] False show ?thesis by simp
  qed
qed

lemma subset_step:
  assumes "R1 \<subseteq> R2" and "v \<in> R2" and "A \<subseteq> set (seen @ [v]) \<union> R1"
  shows "A \<subseteq> set seen \<union> R2"
  using assms by auto

lemma reach_sound:
  "set (reach G todo seen) \<subseteq> set seen \<union> (edges G)\<^sup>* `` set todo"
proof (induction G todo seen rule: reach.induct)
  case (1 G seen)
  then show ?case by simp
next
  case (2 G v todo seen)
  show ?case
  proof (cases "v \<in> set seen \<or> v \<notin> set (nodes G)")
    case True
    with 2(1)[OF True] show ?thesis by auto
  next
    case False
    have "(edges G)\<^sup>* `` set (adj G v @ todo) \<subseteq> (edges G)\<^sup>* `` set (v # todo)"
    proof
      fix x assume "x \<in> (edges G)\<^sup>* `` set (adj G v @ todo)"
      then obtain t where t: "t \<in> set (adj G v @ todo)" "(t, x) \<in> (edges G)\<^sup>*" by auto
      show "x \<in> (edges G)\<^sup>* `` set (v # todo)"
      proof (cases "t \<in> set todo")
        case True
        with t show ?thesis by auto
      next
        case False
        with t have "(v, t) \<in> edges G" by (simp add: edges_def)
        with t have "(v, x) \<in> (edges G)\<^sup>*" by (meson converse_rtrancl_into_rtrancl)
        then show ?thesis by auto
      qed
    qed
    moreover have "v \<in> (edges G)\<^sup>* `` set (v # todo)" by auto
    moreover have "set (reach G (adj G v @ todo) (seen @ [v]))
        \<subseteq> set (seen @ [v]) \<union> (edges G)\<^sup>* `` set (adj G v @ todo)"
      by (rule 2(2)[OF False])
    ultimately have "set (reach G (adj G v @ todo) (seen @ [v]))
        \<subseteq> set seen \<union> (edges G)\<^sup>* `` set (v # todo)"
      by (rule subset_step)
    then show ?thesis using False by simp
  qed
qed

lemma plain_bfs_distinct: "distinct (plain_bfs G v)"
  by (simp add: plain_bfs_def reach_distinct)

lemma plain_bfs_source: "v \<in> set (nodes G) \<Longrightarrow> v \<in> set (plain_bfs G v)"
  unfolding plain_bfs_def by (rule reach_visits_todo) simp_all

lemma plain_bfs_nodes: "set (plain_bfs G v) \<subseteq> set (nodes G)"
  using reach_in_nodes[of G "[v]" "[]"] by (simp add: plain_bfs_def)

lemma plain_bfs_closed:
  assumes "graph_ok G" and "u \<in> set (plain_bfs G v)" and "(u, w) \<in> edges G"
  shows "w \<in> set (plain_bfs G v)"
proof -
  have "w \<in> set (nodes G)" using assms(1,3) by (auto simp: graph_ok_def edges_def)
  moreover have "w \<in> set (adj G u)" using assms(3) by (simp add: edges_def)
  ultimately show ?thesis
    using reach_closed[of "[]" G "[v]"] assms(2) by (auto simp: plain_bfs_def)
qed

lemma plain_bfs_reachable: "u \<in> set (plain_bfs G v) \<Longrightarrow> (v, u) \<in> (edges G)\<^sup>*"
  using reach_sound[of G "[v]" "[]"] by (auto simp: plain_bfs_def)

lemma edges_sym: "graph_ok G \<Longrightarrow> sym (edges G)"
  by (auto simp: graph_ok_def edges_def sym_def)

lemma closed_rtrancl:
  assumes "(u, w) \<in> (edges G)\<^sup>*" and "u \<in> S"
    and "\<forall>a\<in>S. \<forall>b. (a, b) \<in> edges G \<longrightarrow> b \<in> S"
  shows "w \<in> S"
  using assms by (induction rule: rtrancl_induct) auto

lemma components_from_partition:
  assumes "graph_ok G" and "set vs \<subseteq> set (nodes G)"
    and "\<forall>a\<in>set seen. \<forall>b. (a, b) \<in> edges G \<longrightarrow> b \<in> set seen"
  shows "distinct (concat (components_from G vs seen)) \<and>
         set (concat (components_from G vs seen)) \<inter> set seen = {} \<and>
         set vs \<subseteq> set seen \<union> set (concat (components_from G vs seen)) \<and>
         set (concat (components_from G vs seen)) \<subseteq> set (nodes G) \<and>
         [] \<notin> set (components_from G vs seen)"
  using assms(2,3)
proof (induction vs arbitrary: seen)
  case Nil
  then show ?case by simp
next
  case (Cons v vs)
  show ?case
  proof (cases "v \<in> set seen")
    case True
    with Cons.IH[of seen] Cons.prems show ?thesis by auto
  next
    case False
    let ?c = "plain_bfs G v"
    have vn: "v \<in> set (nodes G)" using Cons.prems(1) by simp
    have disj: "set ?c \<inter> set seen = {}"
    proof (rule ccontr)
      assume "set ?c \<inter> set seen \<noteq> {}"
      then obtain u where u: "u \<in> set ?c" "u \<in> set seen" by auto
      from u(1) have "(v, u) \<in> (edges G)\<^sup>*" by (rule plain_bfs_reachable)
      then have "(u, v) \<in> (edges G)\<^sup>*"
        using edges_sym[OF assms(1)] by (metis sym_rtrancl symD)
      then have "v \<in> set seen"
        using closed_rtrancl[of u v G "set seen"] u(2) Cons.prems(2) by blast
      with False show False by simp
    qed
    have closed': "\<forall>a\<in>set (seen @ ?c). \<forall>b. (a, b) \<in> edges G \<longrightarrow> b \<in> set (seen @ ?c)"
      using Cons.prems(2) plain_bfs_closed[OF assms(1)] by auto
    have vs: "set vs \<subseteq> set (nodes G)" using Cons.prems(1) by simp
    note IH = Cons.IH[OF vs closed']
    have "v \<in> set ?c" using vn by (rule plain_bfs_source)
    then have ne: "?c \<noteq> []" by auto
    show ?thesis
      using IH disj plain_bfs_distinct[of G v] plain_bfs_nodes[of G v] \<open>v \<in> set ?c\<close> ne False
      by (auto simp: Int_Un_distrib)
  qed
qed

lemma connected_components_partition:
  assumes "graph_ok G"
  shows "distinct (concat (connected_components G)) \<and>
         set (concat (connected_components G)) = set (nodes G) \<and>
         [] \<notin> set (connected_components G)"
  using components_from_partition[OF assms, of "nodes G" "[]"]
  by (auto simp: connected_components_def)

subsection \<open>The index pairing\<close>

lemma inner_fold_pairing:
  "fold (\<lambda>c m. m(f c \<mapsto> gi)) cs m = (\<lambda>i. if i \<in> f ` set cs then Some gi else m i)"
proof (induction cs arbitrary: m)
  case Nil
  show ?case by simp
next
  case (Cons c cs)
  show ?case unfolding fold_Cons comp_apply Cons.IH by (rule ext) auto
qed

lemma pair_from_Nil [simp]: "pair_from f k [] m = m"
  by (simp add: pair_from_def)

lemma pair_from_Cons:
  "pair_from f k (g # gs) m =
     pair_from f (Suc k) gs (\<lambda>i. if i \<in> f ` set g then Some k else m i)"
  by (simp add: pair_from_def inner_fold_pairing)

lemma pair_groups_pair_from:
  "pair_groups cds gs = pair_from (\<lambda>c. index (cds ! c)) 0 gs Map.empty"
  by (simp add: pair_groups_def pair_from_def)

lemma pair_from_outside:
  "i \<notin> f ` set (concat gs) \<Longrightarrow> pair_from f k gs m i = m i"
proof (induction gs arbitrary: k m)
  case Nil
  show ?case by simp
next
  case (Cons g gs)
  from Cons.prems have "i \<notin> f ` set g" "i \<notin> f ` set (concat gs)" by auto
  then show ?case using Cons.IH[of "Suc k"] by (simp add: pair_from_Cons)
qed

lemma pair_from_dom: "dom (pair_from f k gs m) = dom m \<union> f ` set (concat gs)"
proof (induction gs arbitrary: k m)
  case Nil
  show ?case by simp
next
  case (Cons g gs)
  have "dom (\<lambda>i. if i \<in> f ` set g then Some k else m i) = dom m \<union> f ` set g"
    by (auto simp: dom_def)
  then show ?case by (auto simp: pair_from_Cons Cons.IH)
qed

lemma pair_from_inside:
  assumes "distinct (map f (concat gs))" and "g < length gs" and "c \<in> set (gs ! g)"
  shows "pair_from f k gs m (f c) = Some (k + g)"
  using assms
proof (induction gs arbitrary: k m g)
  case Nil
  then show ?case by simp
next
  case (Cons g0 gs)
  have d: "distinct (map f (concat gs))" using Cons.prems(1) by simp
  show ?case
  proof (cases g)
    case 0
    then have c: "c \<in> set g0" using Cons.prems(3) by simp
    have "f c \<notin> f ` set (concat gs)"
      using Cons.prems(1) c by auto
    then show ?thesis using c 0 by (simp add: pair_from_Cons pair_from_outside)
  next
    case (Suc g')
    then have "g' < length gs" "c \<in> set (gs ! g')" using Cons.prems(2,3) by simp_all
    from Cons.IH[OF d this] show ?thesis by (simp add: pair_from_Cons Suc)
  qed
qed

lemma pair_from_sets:
  "map set gs = map set gs' \<Longrightarrow> pair_from f k gs m = pair_from f k gs' m"
proof (induction gs arbitrary: gs' k m)
  case Nil
  then show ?case by simp
next
  case (Cons g gs)
  then obtain g' gs'' where gs': "gs' = g' # gs''" by (cases gs') auto
  with Cons.prems have "set g = set g'" "map set gs = map set gs''" by simp_all
  then show ?case using Cons.IH[of gs''] by (simp add: gs' pair_from_Cons)
qed

lemma distinct_concat_unique:
  assumes "distinct (concat xss)" and "g < length xss" and "g' < length xss"
    and "x \<in> set (xss ! g)" and "x \<in> set (xss ! g')"
  shows "g = g'"
  using assms
proof (induction xss arbitrary: g g')
  case Nil
  then show ?case by simp
next
  case (Cons ys xss)
  have in_concat: "x \<in> set (concat xss)" if "k < length xss" "x \<in> set (xss ! k)" for k
    using that nth_mem[of k xss] by auto
  show ?case
  proof (cases g)
    case 0
    show ?thesis
    proof (cases g')
      case 0
      with \<open>g = 0\<close> show ?thesis by simp
    next
      case (Suc k)
      with Cons.prems 0 in_concat[of k] show ?thesis by auto
    qed
  next
    case (Suc k)
    show ?thesis
    proof (cases g')
      case 0
      with Cons.prems Suc in_concat[of k] show ?thesis by auto
    next
      case (Suc k')
      with Cons.prems \<open>g = Suc k\<close> Cons.IH[of k k'] show ?thesis by auto
    qed
  qed
qed

subsection \<open>The scenario of the specification\<close>

lemma abc_construct:
  "construct_components [box_A, box_B, box_C] = [comp_A, comp_B, comp_C]"
  by (simp add: construct_components_def comp_A_def comp_B_def comp_C_def eval_nat_numeral)

lemma abc_fields:
  "index comp_A = 0" "index comp_B = 1" "index comp_C = 2"
  "bounding_box comp_A = box_A" "bounding_box comp_B = box_B" "bounding_box comp_C = box_C"
  by (simp_all add: comp_A_def comp_B_def comp_C_def Component_def)

lemma abc_centers:
  "roi_center box_A = [5, 5]" "roi_center box_B = [10, 5]" "roi_center box_C = [105, 105]"
  by (simp_all add: roi_center_def box_A_def box_B_def box_C_def Roi_def roi_begin_def
      trunc_half_def)

lemma abc_diagonals:
  "get_diagonal_length comp_A = sqrt 200"
  "get_diagonal_length comp_B = sqrt 200"
  "get_diagonal_length comp_C = sqrt 200"
  by (simp_all add: get_diagonal_length_def abc_fields box_A_def box_B_def box_C_def
      Roi_def roi_begin_def roi_end_def)

lemma abc_distances:
  "distance [5, 5] [5, 5] = 0" "distance [10, 5] [10, 5] = 0" "distance [105, 105] [105, 105] = 0"
  "distance [5, 5] [10, 5] = 5" "distance [10, 5] [5, 5] = 5"
  "distance [5, 5] [105, 105] = sqrt 20000" "distance [105, 105] [5, 5] = sqrt 20000"
  "distance [10, 5] [105, 105] = sqrt 19025" "distance [105, 105] [10, 5] = sqrt 19025"
  by (simp_all add: distance_def real_sqrt_unique)

lemma abc_radius:
  "0 \<le> sqrt 200 + 1" "5 \<le> sqrt 200 + 1"
  "\<not> sqrt 20000 \<le> sqrt 200 + 1" "\<not> sqrt 19025 \<le> sqrt 200 + 1"
proof -
  have a: "sqrt 200 \<le> 15" by (rule real_le_lsqrt) simp_all
  have b: "14 \<le> sqrt 200" by (rule real_le_rsqrt) simp
  have c: "137 \<le> sqrt 19025" by (rule real_le_rsqrt) simp
  have d: "141 \<le> sqrt 20000" by (rule real_le_rsqrt) simp
  show "0 \<le> sqrt 200 + 1" "5 \<le> sqrt 200 + 1"
    "\<not> sqrt 20000 \<le> sqrt 200 + 1" "\<not> sqrt 19025 \<le> sqrt 200 + 1"
    using a b c d by linarith+
qed

lemma abc_intersects:
  "intersects box_A box_B" "intersects box_B box_A"
  by (simp_all add: intersects_def roi_empty_def roi_size_def box_A_def box_B_def Roi_def
      roi_begin_def roi_end_def)

lemma abc_find:
  "find_overlapping_components comp_A [comp_A, comp_B, comp_C]
     [[5, 5], [10, 5], [105, 105]] = Inr [1]"
  "find_overlapping_components comp_B [comp_A, comp_B, comp_C]
     [[5, 5], [10, 5], [105, 105]] = Inr [0]"
  "find_overlapping_components comp_C [comp_A, comp_B, comp_C]
     [[5, 5], [10, 5], [105, 105]] = Inr []"
  by (simp_all add: find_overlapping_components_def Let_def query_ball_point_def upt_three
      abc_fields abc_centers abc_diagonals abc_distances abc_radius abc_intersects)

lemma abc_create: "create_components [box_A, box_B, box_C] = Inr abc"
  by (simp add: create_components_def abc_construct Let_def KDTree_def abc_fields
      abc_centers abc_find store_overlaps_def)
    (simp add: comp_A_def comp_B_def comp_C_def Component_def abc_def)

lemmas graph_defs = get_groups_def overlap_graph_def connection_dict_def pair_groups_def
  add_nodes_from_def add_node_def add_key_def Graph_def add_edges_from_def add_edge_def
  connected_components_def plain_bfs_def

lemma abc_groups: "snd (get_groups rev abc) = [[1, 0], [2]]"
  by (simp add: graph_defs abc_def upt_three Let_def)

lemma abc_groups_id: "snd (get_groups (\<lambda>xs. xs) abc) = [[0, 1], [2]]"
  by (simp add: graph_defs abc_def upt_three Let_def)

lemma abc_pairs:
  "fst (get_groups rev abc) 0 = Some 0" "fst (get_groups rev abc) 1 = Some 0"
  "fst (get_groups rev abc) 2 = Some 1"
  by (simp_all add: graph_defs abc_def upt_three Let_def)

lemma abc_ok:
  "\<forall>p<length abc. index (abc ! p) = p"
  "\<forall>p<length abc. \<forall>q\<in>set (overlapping_components (abc ! p)). q < length abc"
  by (simp_all add: abc_def less_Suc_eq all_conj_distrib)

subsection \<open>Partition and determinism\<close>

text \<open>
  Claim C4: for component descriptions whose index is their position (the indices
  \<open>0, ..., N - 1\<close> in input order) and whose overlap lists refer to components of the
  list, the pair \<open>(index_to_group, groups)\<close> returned by \<open>get_groups\<close> partitions
  the indices below \<open>N\<close>: the index sets of the groups, one after the other, hold every
  index below \<open>N\<close> and hold no index twice, so that every index is in exactly one
  group; no group is empty (a group of size 1 is possible, as the witness shows); and
  \<open>index_to_group\<close> is defined on the indices below \<open>N\<close> and maps every index to
  the number of the group that holds it.  This holds for every iteration order of
  the sets that \<open>networkx\<close> returns.
\<close>

theorem get_groups_partition:
  assumes idx: "\<forall>p<length cds. index (cds ! p) = p"
    and refs: "\<forall>p<length cds. \<forall>q\<in>set (overlapping_components (cds ! p)). q < length cds"
    and ord_set: "\<And>xs. set (set_order xs) = set xs"
    and ord_distinct: "\<And>xs. distinct xs \<Longrightarrow> distinct (set_order xs)"
    and res: "get_groups set_order cds = (index_to_group, groups)"
  shows "distinct (concat (group_indices cds groups)) \<and>
         set (concat (group_indices cds groups)) = {0..<length cds} \<and>
         [] \<notin> set groups \<and>
         (\<forall>i<length cds. \<exists>!g. g < length groups \<and> i \<in> set (group_indices cds groups ! g)) \<and>
         dom index_to_group = {0..<length cds} \<and>
         (\<forall>g<length groups. \<forall>i\<in>set (group_indices cds groups ! g).
            index_to_group i = Some g)"
proof -
  let ?G = "overlap_graph cds"
  let ?cs = "connected_components ?G"
  let ?f = "\<lambda>c. index (cds ! c)"
  have groups: "groups = map set_order ?cs"
    and m: "index_to_group = pair_groups cds groups"
    using res by (auto simp: get_groups_def Let_def)
  have part: "distinct (concat ?cs)" "set (concat ?cs) = {0..<length cds}" "[] \<notin> set ?cs"
    using connected_components_partition[OF overlap_graph_ok, of cds]
      overlap_graph_nodes[OF refs] by simp_all
  have set_groups: "set (concat groups) = {0..<length cds}"
    using part(2) by (simp add: groups ord_set)
  have distinct_map: "distinct (concat (map h xss))"
    if "distinct (concat xss)" "\<And>xs. set (h xs) = set xs" "\<And>xs. distinct xs \<Longrightarrow> distinct (h xs)"
    for h :: "nat list \<Rightarrow> nat list" and xss
    using that by (induction xss) auto
  have distinct_groups: "distinct (concat groups)"
    unfolding groups using part(1) ord_set ord_distinct by (rule distinct_map)
  have ne: "[] \<notin> set groups"
  proof
    assume "[] \<in> set groups"
    then obtain c where "c \<in> set ?cs" "set_order c = []" by (auto simp: groups)
    then have "set c = {}" using ord_set[of c] by simp
    with \<open>c \<in> set ?cs\<close> part(3) show False by auto
  qed
  have same: "group_indices cds groups = groups"
    unfolding group_indices_def
  proof (rule map_idI, rule map_idI)
    fix g c assume "g \<in> set groups" "c \<in> set g"
    then have "c \<in> set (concat groups)" by auto
    with set_groups idx show "index (cds ! c) = c" by simp
  qed
  have dist_f: "distinct (map ?f (concat groups))"
    using distinct_groups same by (simp add: group_indices_def map_concat)
  have "?f ` {0..<length cds} = {0..<length cds}"
    using idx by (auto simp: image_iff)
  then have dom: "dom index_to_group = {0..<length cds}"
    using set_groups by (simp add: m pair_groups_pair_from pair_from_dom)
  have inside: "\<forall>g<length groups. \<forall>i\<in>set (group_indices cds groups ! g).
            index_to_group i = Some g"
  proof (intro allI impI ballI)
    fix g i assume g: "g < length groups" and i: "i \<in> set (group_indices cds groups ! g)"
    then obtain c where c: "c \<in> set (groups ! g)" "i = ?f c"
      by (auto simp: group_indices_def)
    show "index_to_group i = Some g"
      using pair_from_inside[OF dist_f g c(1), of 0 Map.empty]
      by (simp add: m pair_groups_pair_from c(2))
  qed
  have uniq: "\<forall>i<length cds. \<exists>!g. g < length groups \<and> i \<in> set (group_indices cds groups ! g)"
  proof (intro allI impI)
    fix i assume "i < length cds"
    then have "i \<in> set (concat groups)" using set_groups by simp
    then obtain ys where "ys \<in> set groups" "i \<in> set ys" by auto
    then obtain g where g: "g < length groups" "i \<in> set (groups ! g)"
      by (metis in_set_conv_nth)
    show "\<exists>!g. g < length groups \<and> i \<in> set (group_indices cds groups ! g)"
      unfolding same
    proof (rule ex1I[of _ g])
      show "g < length groups \<and> i \<in> set (groups ! g)" using g by simp
    next
      fix g' assume "g' < length groups \<and> i \<in> set (groups ! g')"
      then show "g' = g"
        using distinct_concat_unique[OF distinct_groups _ g(1) _ g(2)] by blast
    qed
  qed
  show ?thesis
    using distinct_groups set_groups ne uniq dom inside by (simp add: same)
qed

theorem get_groups_partition_witness:
  "create_components [box_A, box_B, box_C] = Inr abc \<and>
   snd (get_groups rev abc) = [[1, 0], [2]] \<and>
   fst (get_groups rev abc) 0 = Some 0 \<and> fst (get_groups rev abc) 1 = Some 0 \<and>
   fst (get_groups rev abc) 2 = Some 1 \<and>
   distinct (concat (group_indices abc [[1, 0], [2]])) \<and>
   set (concat (group_indices abc [[1, 0], [2]])) = {0..<length abc} \<and>
   dom (fst (get_groups rev abc)) = {0..<length abc}"
proof -
  have r: "get_groups rev abc = (fst (get_groups rev abc), [[1, 0], [2]])"
    using abc_groups by (metis prod.collapse)
  show ?thesis
    using get_groups_partition[OF abc_ok, of rev, OF set_rev _ r] abc_groups abc_pairs
      abc_create
    by simp
qed

text \<open>
  Claim C9: the only thing in \<open>get_groups\<close> that is not fixed by its input is the
  iteration order of the node sets that \<open>connected_components\<close> yields.  Two runs on the
  same component descriptions, with any two such orders, return groups with the same
  members, group by group in the same order of groups, and the same \<open>index_to_group\<close>.
\<close>

theorem get_groups_deterministic:
  assumes "\<And>xs. set (order1 xs) = set xs" and "\<And>xs. set (order2 xs) = set xs"
  shows "map set (snd (get_groups order1 cds)) = map set (snd (get_groups order2 cds)) \<and>
         fst (get_groups order1 cds) = fst (get_groups order2 cds)"
proof -
  let ?cs = "connected_components (overlap_graph cds)"
  have s: "map set (map order1 ?cs) = map set (map order2 ?cs)"
    using assms by simp
  then have "pair_groups cds (map order1 ?cs) = pair_groups cds (map order2 ?cs)"
    unfolding pair_groups_pair_from by (rule pair_from_sets)
  with s show ?thesis by (simp add: get_groups_def Let_def)
qed

theorem get_groups_deterministic_witness:
  "snd (get_groups rev abc) = [[1, 0], [2]] \<and>
   snd (get_groups (\<lambda>xs. xs) abc) = [[0, 1], [2]] \<and>
   map set (snd (get_groups rev abc)) = map set (snd (get_groups (\<lambda>xs. xs) abc)) \<and>
   fst (get_groups rev abc) = fst (get_groups (\<lambda>xs. xs) abc)"
  using get_groups_deterministic[of rev "\<lambda>xs. xs" abc] abc_groups abc_groups_id
  by simp

section \<open>Reconstruction (claims C3 and C5)\<close>

subsection \<open>Blocks of a row-major array\<close>

lemma block_map: "block c i (map f xs) = map f (block c i xs)"
  by (simp add: block_def take_map drop_map)

lemma block_zip: "block c i (zip xs ys) = zip (block c i xs) (block c i ys)"
  by (simp add: block_def take_zip drop_zip)

lemma length_block: "(Suc i) * c \<le> length xs \<Longrightarrow> length (block c i xs) = c"
  by (simp add: block_def)

lemma block_concat:
  assumes "\<forall>ys\<in>set xss. length ys = c" and "i < length xss"
  shows "block c i (concat xss) = xss ! i"
  using assms
proof (induction xss arbitrary: i)
  case Nil
  then show ?case by simp
next
  case (Cons ys xss)
  show ?case
  proof (cases i)
    case 0
    with Cons.prems show ?thesis by (simp add: block_def)
  next
    case (Suc k)
    with Cons.prems have "block c k (concat xss) = xss ! k" by (intro Cons.IH) auto
    moreover have "length ys = c" using Cons.prems by simp
    ultimately show ?thesis by (simp add: block_def Suc)
  qed
qed

lemma block_Suc: "block c (Suc i) xs = block c i (drop c xs)"
  by (simp add: block_def add.commute)

lemma concat_blocks:
  "length xs = m * c \<Longrightarrow> concat (map (\<lambda>i. block c i xs) [0..<m]) = xs"
proof (induction m arbitrary: xs)
  case 0
  then show ?case by simp
next
  case (Suc m)
  have "concat (map (\<lambda>i. block c i xs) [0..<Suc m])
      = block c 0 xs @ concat (map (\<lambda>i. block c (Suc i) xs) [0..<m])"
    by (simp add: upt_conv_Cons map_Suc_upt[symmetric] comp_def del: upt_Suc)
  also have "\<dots> = take c xs @ concat (map (\<lambda>i. block c i (drop c xs)) [0..<m])"
    by (simp add: block_Suc) (simp add: block_def)
  also have "concat (map (\<lambda>i. block c i (drop c xs)) [0..<m]) = drop c xs"
    using Suc.prems by (intro Suc.IH) simp
  finally show ?case by simp
qed

subsection \<open>Slices\<close>

lemma clip_bound_le: "clip_bound n k \<le> n"
  by (auto simp: clip_bound_def)

lemma slice_bounds_le: "snd (slice_bounds n sl) \<le> n"
  by (cases sl) (auto simp: clip_bound_le split: option.splits)

lemma slice_data_map: "slice_data sls s (map f xs) = map f (slice_data sls s xs)"
proof (induction sls arbitrary: s xs)
  case Nil
  show ?case by simp
next
  case (Cons sl sls)
  show ?case
    by (cases s) (simp_all add: Cons.IH block_map map_concat comp_def)
qed

lemma slice_data_length_cong:
  "length xs = length ys \<Longrightarrow> length (slice_data sls s xs) = length (slice_data sls s ys)"
proof (induction sls arbitrary: s xs ys)
  case Nil
  then show ?case by simp
next
  case (Cons sl sls)
  show ?case
  proof (cases s)
    case Nil
    with Cons.prems show ?thesis by simp
  next
    case (Cons n s')
    have "length (block (prod_list s') i xs) = length (block (prod_list s') i ys)" for i
      using Cons.prems by (simp add: block_def)
    then have "length (slice_data sls s' (block (prod_list s') i xs))
             = length (slice_data sls s' (block (prod_list s') i ys))" for i
      by (rule Cons.IH)
    then show ?thesis by (simp add: Cons length_concat comp_def)
  qed
qed

lemma zip_concat_same_lengths:
  assumes "\<forall>i\<in>set is. length (F i) = length (G i)"
  shows "zip (concat (map F is)) (concat (map G is)) = concat (map (\<lambda>i. zip (F i) (G i)) is)"
  using assms by (induction "is") simp_all

lemma slice_data_map2:
  "length xs = length ys \<Longrightarrow>
   slice_data sls s (map2 f xs ys) = map2 f (slice_data sls s xs) (slice_data sls s ys)"
proof (induction sls arbitrary: s xs ys)
  case Nil
  then show ?case by simp
next
  case (Cons sl sls)
  show ?case
  proof (cases s)
    case Nil
    with Cons.prems show ?thesis by simp
  next
    case (Cons n s')
    let ?c = "prod_list s'"
    let ?is = "[fst (slice_bounds n sl)..<snd (slice_bounds n sl)]"
    have len: "length (block ?c i xs) = length (block ?c i ys)" for i
      using Cons.prems by (simp add: block_def)
    have "slice_data (sl # sls) s (map2 f xs ys)
        = concat (map (\<lambda>i. slice_data sls s' (map2 f (block ?c i xs) (block ?c i ys))) ?is)"
      by (simp add: Cons block_map block_zip)
    also have "\<dots> = concat (map (\<lambda>i. map2 f (slice_data sls s' (block ?c i xs))
                                              (slice_data sls s' (block ?c i ys))) ?is)"
      using Cons.IH[OF len] by simp
    also have "\<dots> = map2 f (concat (map (\<lambda>i. slice_data sls s' (block ?c i xs)) ?is))
                            (concat (map (\<lambda>i. slice_data sls s' (block ?c i ys)) ?is))"
      using slice_data_length_cong[OF len]
      by (simp add: zip_concat_same_lengths map_concat comp_def)
    finally show ?thesis by (simp add: Cons)
  qed
qed

lemma slice_data_length:
  "length xs = prod_list s \<Longrightarrow> length (slice_data sls s xs) = prod_list (slice_shape sls s)"
proof (induction sls arbitrary: s xs)
  case Nil
  then show ?case by simp
next
  case (Cons sl sls)
  show ?case
  proof (cases s)
    case Nil
    with Cons.prems show ?thesis by simp
  next
    case (Cons n s')
    let ?c = "prod_list s'"
    let ?b = "fst (slice_bounds n sl)" and ?e = "snd (slice_bounds n sl)"
    have "length (block ?c i xs) = ?c" if "i < ?e" for i
    proof -
      have "Suc i \<le> n" using that slice_bounds_le[of n sl] by simp
      then have "Suc i * ?c \<le> n * ?c" by (rule mult_le_mono1)
      then show ?thesis using Cons.prems Cons by (intro length_block) simp
    qed
    then have "length (slice_data sls s' (block ?c i xs)) = prod_list (slice_shape sls s')"
      if "i < ?e" for i
      using that by (intro Cons.IH) simp
    then have "map (\<lambda>i. length (slice_data sls s' (block ?c i xs))) [?b..<?e]
             = map (\<lambda>i. prod_list (slice_shape sls s')) [?b..<?e]"
      by (intro map_cong) simp_all
    then have "sum_list (map (\<lambda>i. length (slice_data sls s' (block ?c i xs))) [?b..<?e])
             = (?e - ?b) * prod_list (slice_shape sls s')"
      by (simp only: sum_list_triv) simp
    then show ?thesis
      by (simp add: Cons length_concat comp_def)
  qed
qed

subsection \<open>Broadcasting, reshaping and the outer product\<close>

lemma broadcast_rev_prefix: "broadcast_rev (xs @ ys) xs = Some (xs @ ys)"
proof (induction xs)
  case Nil
  show ?case by (cases ys) simp_all
next
  case (Cons x xs)
  then show ?case by simp
qed

lemma broadcast_shapes_lead: "broadcast_shapes (n # r) r = Some (n # r)"
  using broadcast_rev_prefix[of "rev r" "[n]"] by (simp add: broadcast_shapes_def)

lemma broadcast_data_same: "length xs = prod_list s \<Longrightarrow> broadcast_data s s xs = xs"
proof (induction s arbitrary: xs)
  case Nil
  show ?case by simp
next
  case (Cons m t)
  have "broadcast_data t t (block (prod_list t) i xs) = block (prod_list t) i xs" if "i < m" for i
  proof -
    have "Suc i * prod_list t \<le> m * prod_list t" using that by (intro mult_le_mono1) simp
    then have "length (block (prod_list t) i xs) = prod_list t"
      using Cons.prems by (intro length_block) simp
    then show ?thesis by (rule Cons.IH)
  qed
  then have "map (\<lambda>i. broadcast_data t t (block (prod_list t) i xs)) [0..<m]
           = map (\<lambda>i. block (prod_list t) i xs) [0..<m]"
    by (intro map_cong) simp_all
  then have "concat (map (\<lambda>i. broadcast_data t t (block (prod_list t) i xs)) [0..<m]) = xs"
    using Cons.prems by (simp only: concat_blocks prod_list.Cons)
  then show ?case by simp
qed

lemma broadcast_data_lead:
  "length xs = prod_list s \<Longrightarrow> broadcast_data s (n # s) xs = concat (replicate n xs)"
  by (simp add: broadcast_data_same)

lemma nd_add_rows:
  assumes "shape a = n # r" and "length (data a) = n * prod_list r"
    and "shape b = r" and "length (data b) = prod_list r"
  shows "nd_add a b =
           Inr \<lparr>shape = n # r, data = map2 (+) (data a) (concat (replicate n (data b)))\<rparr>"
proof -
  have "broadcast_data (n # r) (n # r) (data a) = data a"
    using assms(2) by (intro broadcast_data_same) simp
  moreover have "broadcast_data r (n # r) (data b) = concat (replicate n (data b))"
    using assms(4) by (rule broadcast_data_lead)
  ultimately show ?thesis
    using assms(1,3) by (simp add: nd_add_def nd_binop_def broadcast_shapes_lead)
qed

lemma outer_plus_rows:
  assumes "length hs = length bs"
  shows "map2 (+) (concat (map (\<lambda>x. map (\<lambda>y. x * y) hs) ws)) (concat (replicate (length ws) bs))
       = concat (map (\<lambda>x. map2 (\<lambda>y c. x * y + c) hs bs) ws)"
proof (induction ws)
  case Nil
  show ?case by simp
next
  case (Cons x ws)
  have "map2 (+) (map (\<lambda>y. x * y) hs) bs = map2 (\<lambda>y c. x * y + c) hs bs"
    by (simp add: zip_map1 comp_def case_prod_beta)
  then show ?case using Cons.IH assms by simp
qed

lemma reshape_infer_first:
  assumes "nd_size a = n * prod_list r" and "0 < prod_list r"
  shows "np_reshape a (- 1 # map int r) = Inr \<lparr>shape = n # r, data = data a\<rparr>"
proof -
  have f1: "filter (\<lambda>d. d = - 1) (map int r) = []"
    by (induction r) simp_all
  have f2: "filter (\<lambda>d. d \<noteq> - 1) (map int r) = map int r"
    by (induction r) simp_all
  have f3: "\<not> list_ex (\<lambda>d. d < - 1) (map int r)"
    by (induction r) simp_all
  have f4: "map ((\<lambda>d. if d = - 1 then v else nat d) \<circ> int) r = r" for v
    by (induction r) simp_all
  have f5: "map (nat \<circ> int) r = r"
    by (induction r) simp_all
  show ?thesis
    using assms by (simp add: np_reshape_def f1 f2 f3 f4 f5 Let_def)
qed

lemma contribution:
  assumes "shape w = [n]" and "length (data w) = n"
    and "shape h = r" and "length (data h) = prod_list r"
    and "shape b = r" and "length (data b) = prod_list r"
    and "0 < prod_list r"
  shows "bind_err (np_reshape (outer w h) (- 1 # map int r)) (\<lambda>wh. nd_add wh b)
       = Inr \<lparr>shape = n # r,
              data = concat (map (\<lambda>x. map2 (\<lambda>y c. x * y + c) (data h) (data b)) (data w))\<rparr>"
proof -
  let ?o = "outer w h"
  have size: "nd_size ?o = n * prod_list r"
    using assms by (simp add: outer_def nd_size_def)
  have len: "length (data ?o) = n * prod_list r"
    using assms by (simp add: outer_def length_concat comp_def sum_list_triv)
  have "np_reshape ?o (- 1 # map int r) = Inr \<lparr>shape = n # r, data = data ?o\<rparr>"
    using size assms(7) by (rule reshape_infer_first)
  moreover have "nd_add \<lparr>shape = n # r, data = data ?o\<rparr> b
      = Inr \<lparr>shape = n # r, data = map2 (+) (data ?o) (concat (replicate n (data b)))\<rparr>"
    using len assms by (intro nd_add_rows[THEN trans]) simp_all
  moreover have "map2 (+) (data ?o) (concat (replicate n (data b)))
      = concat (map (\<lambda>x. map2 (\<lambda>y c. x * y + c) (data h) (data b)) (data w))"
    using outer_plus_rows[of "data h" "data b" "data w"] assms by (simp add: outer_def)
  ultimately show ?thesis by simp
qed

lemma contribution_flat:
  assumes "shape w = [n]" and "length (data w) = n"
    and "shape h = [d]" and "length (data h) = d"
    and "shape b = [d]" and "length (data b) = d"
  shows "nd_add (outer w h) b
       = Inr \<lparr>shape = [n, d],
              data = concat (map (\<lambda>x. map2 (\<lambda>y c. x * y + c) (data h) (data b)) (data w))\<rparr>"
proof -
  let ?o = "outer w h"
  have sh: "shape ?o = n # [d]"
    using assms by (simp add: outer_def nd_size_def)
  have len: "length (data ?o) = n * prod_list [d]"
    using assms by (simp add: outer_def length_concat comp_def sum_list_triv)
  have "nd_add ?o b
      = Inr \<lparr>shape = n # [d], data = map2 (+) (data ?o) (concat (replicate n (data b)))\<rparr>"
    using sh len assms by (intro nd_add_rows) simp_all
  moreover have "map2 (+) (data ?o) (concat (replicate n (data b)))
      = concat (map (\<lambda>x. map2 (\<lambda>y c. x * y + c) (data h) (data b)) (data w))"
    using outer_plus_rows[of "data h" "data b" "data w"] assms by (simp add: outer_def)
  ultimately show ?thesis by simp
qed

subsection \<open>Rows, frames and the sliced contribution\<close>

lemma nd_row_flat:
  assumes "shape a = [k, d]" and "nd_ok a" and "j < k"
  shows "nd_row a j = Inr \<lparr>shape = [d], data = block d j (data a)\<rparr>"
    and "length (block d j (data a)) = d"
proof -
  show "nd_row a j = Inr \<lparr>shape = [d], data = block d j (data a)\<rparr>"
    using assms by (simp add: nd_row_def)
  have "Suc j * d \<le> k * d" using assms(3) by (intro mult_le_mono1) simp
  then show "length (block d j (data a)) = d"
    using assms(1,2) by (intro length_block) (simp add: nd_ok_def)
qed

lemma nd_row_out_of_range:
  assumes "shape a = k # s" and "\<not> j < k"
  shows "nd_row a j = Inl IndexError"
  using assms by (simp add: nd_row_def)

lemma nd_take_vector:
  assumes "shape r = [t]" and "length (data r) = t" and "nd_take r frames = Inr wl"
  shows "shape wl = [length frames] \<and> length (data wl) = length frames"
proof -
  have ok: "\<not> list_ex (\<lambda>k. norm_index t k = None) frames"
    and wl: "wl = \<lparr>shape = [length frames],
               data = concat (map (\<lambda>k. block 1 (the (norm_index t k)) (data r)) frames)\<rparr>"
    using assms(1,3) by (auto simp: nd_take_def split: if_splits)
  have "length (block 1 (the (norm_index t k)) (data r)) = 1" if "k \<in> set frames" for k
  proof -
    from ok that obtain i where i: "norm_index t k = Some i"
      by (auto simp: list_ex_iff)
    then have "i < t" by (auto simp: norm_index_def Let_def split: if_splits)
    then show ?thesis using assms(2) i by (simp add: block_def)
  qed
  then have "map (\<lambda>k. length (block 1 (the (norm_index t k)) (data r))) frames
           = map (\<lambda>k. 1) frames"
    by (intro map_cong) simp_all
  then have "sum_list (map (\<lambda>k. length (block 1 (the (norm_index t k)) (data r))) frames)
           = length frames"
    by (simp only: sum_list_triv) simp
  then have "length (concat (map (\<lambda>k. block 1 (the (norm_index t k)) (data r)) frames))
           = length frames"
    by (simp add: length_concat comp_def)
  then show ?thesis by (simp add: wl)
qed

lemma nd_index2_vector:
  assumes "shape W = [kw, t]" and "nd_ok W" and "nd_index2 W j frames = Inr wl"
  shows "shape wl = [length frames] \<and> length (data wl) = length frames"
proof -
  have j: "j < kw"
    using assms(1,3) by (auto simp: nd_index2_def nd_row_def split: if_splits)
  have row: "nd_row W j = Inr \<lparr>shape = [t], data = block t j (data W)\<rparr>"
    and len: "length (block t j (data W)) = t"
    using nd_row_flat[OF assms(1,2) j] by simp_all
  have "nd_take \<lparr>shape = [t], data = block t j (data W)\<rparr> frames = Inr wl"
    using assms(3) by (simp add: nd_index2_def row)
  then show ?thesis
    by (intro nd_take_vector[where r = "\<lparr>shape = [t], data = block t j (data W)\<rparr>" and t = t])
       (simp_all add: len)
qed

lemma map_nth_fun: "map (\<lambda>i. f (xs ! i)) [0..<length xs] = map f xs"
  by (rule nth_equalityI) simp_all

lemma slice_rows:
  assumes "length ws = n" and "\<forall>x\<in>set ws. length (g x) = prod_list s"
  shows "slice_data (Slice None None # sls) (n # s) (concat (map g ws))
       = concat (map (\<lambda>x. slice_data sls s (g x)) ws)"
proof -
  have "block (prod_list s) i (concat (map g ws)) = g (ws ! i)" if "i < n" for i
    using block_concat[of "map g ws" "prod_list s" i] assms that by simp
  then have "map (\<lambda>i. slice_data sls s (block (prod_list s) i (concat (map g ws)))) [0..<n]
           = map (\<lambda>i. slice_data sls s (g (ws ! i))) [0..<n]"
    by (intro map_cong) simp_all
  also have "\<dots> = map (\<lambda>x. slice_data sls s (g x)) ws"
    using map_nth_fun[of "\<lambda>x. slice_data sls s (g x)" ws] assms(1) by simp
  finally show ?thesis by simp
qed

text \<open>The neighbour's term as the loop computes it and as a slice of its full patch.\<close>

lemma sliced_contribution:
  assumes w: "shape w = [n]" "length (data w) = n"
    and hrow: "length hrow = prod_list s" and brow: "length brow = prod_list s"
    and sls: "length sls \<le> length s" and pos: "0 < prod_list (slice_shape sls s)"
    and s: "0 < prod_list s"
  shows "bind_err (nd_slice \<lparr>shape = s, data = hrow\<rparr> sls) (\<lambda>hl.
         bind_err (nd_slice \<lparr>shape = s, data = brow\<rparr> sls) (\<lambda>bl.
         bind_err (np_reshape (outer w (nd_sigmoid hl)) (- 1 # map int (shape (nd_sigmoid hl))))
           (\<lambda>wh. nd_add wh (nd_sigmoid bl))))
       = bind_err (nd_add (outer w (nd_sigmoid \<lparr>shape = [prod_list s], data = hrow\<rparr>))
                    (nd_sigmoid \<lparr>shape = [prod_list s], data = brow\<rparr>)) (\<lambda>patch.
         bind_err (np_reshape patch (- 1 # map int s)) (\<lambda>patch.
         nd_slice patch (Slice None None # sls)))"
proof -
  let ?r = "slice_shape sls s"
  let ?hs = "map sigmoid (slice_data sls s hrow)" and ?bs = "map sigmoid (slice_data sls s brow)"
  let ?g = "\<lambda>x. map2 (\<lambda>y c. x * y + c) (map sigmoid hrow) (map sigmoid brow)"
  have lhs: "bind_err (nd_slice \<lparr>shape = s, data = hrow\<rparr> sls) (\<lambda>hl.
         bind_err (nd_slice \<lparr>shape = s, data = brow\<rparr> sls) (\<lambda>bl.
         bind_err (np_reshape (outer w (nd_sigmoid hl)) (- 1 # map int (shape (nd_sigmoid hl))))
           (\<lambda>wh. nd_add wh (nd_sigmoid bl))))
     = Inr \<lparr>shape = n # ?r, data = concat (map (\<lambda>x. map2 (\<lambda>y c. x * y + c) ?hs ?bs) (data w))\<rparr>"
    using sls contribution[of w n "nd_sigmoid \<lparr>shape = ?r, data = slice_data sls s hrow\<rparr>" ?r
        "nd_sigmoid \<lparr>shape = ?r, data = slice_data sls s brow\<rparr>"]
      w hrow brow pos
    by (simp add: nd_slice_def nd_sigmoid_def nd_map_def slice_data_length)
  have flat: "nd_add (outer w (nd_sigmoid \<lparr>shape = [prod_list s], data = hrow\<rparr>))
                    (nd_sigmoid \<lparr>shape = [prod_list s], data = brow\<rparr>)
      = Inr \<lparr>shape = [n, prod_list s], data = concat (map ?g (data w))\<rparr>"
    using contribution_flat[of w n "nd_sigmoid \<lparr>shape = [prod_list s], data = hrow\<rparr>"
        "prod_list s" "nd_sigmoid \<lparr>shape = [prod_list s], data = brow\<rparr>"] w hrow brow
    by (simp add: nd_sigmoid_def nd_map_def)
  have resh: "np_reshape \<lparr>shape = [n, prod_list s], data = concat (map ?g (data w))\<rparr>
                (- 1 # map int s)
      = Inr \<lparr>shape = n # s, data = concat (map ?g (data w))\<rparr>"
    using s by (intro reshape_infer_first[THEN trans]) (simp_all add: nd_size_def)
  have "slice_data (Slice None None # sls) (n # s) (concat (map ?g (data w)))
      = concat (map (\<lambda>x. slice_data sls s (?g x)) (data w))"
    using w hrow brow by (intro slice_rows) simp_all
  also have "\<dots> = concat (map (\<lambda>x. map2 (\<lambda>y c. x * y + c) ?hs ?bs) (data w))"
    using hrow brow by (simp add: slice_data_map2 slice_data_map)
  finally have sl: "nd_slice \<lparr>shape = n # s, data = concat (map ?g (data w))\<rparr>
                      (Slice None None # sls)
      = Inr \<lparr>shape = n # ?r,
             data = concat (map (\<lambda>x. map2 (\<lambda>y c. x * y + c) ?hs ?bs) (data w))\<rparr>"
    using sls by (simp add: nd_slice_def)
  show ?thesis
    unfolding lhs flat by (simp add: resh sl)
qed

subsection \<open>The slices of an intersection\<close>

lemma bind_err_assoc:
  "bind_err (bind_err m f) g = bind_err m (\<lambda>v. bind_err (f v) g)"
  by (cases m) simp_all

lemma local_slices_positive:
  assumes "length o1 = length shp" and "length o2 = length shp"
    and "\<forall>e\<in>set shp. 0 < e"
    and "\<not> separated o1 o2 (map2 (+) o1 shp) (map2 (+) o2 shp)"
  shows "0 < prod_list (slice_shape
           (map (\<lambda>(b, e). Slice (Some b) (Some e))
              (zip (map2 (-) (map2 max o1 o2) o2)
                   (map2 (+) (map2 (-) (map2 max o1 o2) o2)
                      (map2 (-) (map2 min (map2 (+) o1 shp) (map2 (+) o2 shp))
                                (map2 max o1 o2)))))
           (map nat shp))"
  using assms
proof (induction shp arbitrary: o1 o2)
  case Nil
  then show ?case by simp
next
  case (Cons e shp)
  from Cons.prems(1) obtain a o1' where o1: "o1 = a # o1'" "length o1' = length shp"
    by (auto simp: length_Suc_conv)
  from Cons.prems(2) obtain b o2' where o2: "o2 = b # o2'" "length o2' = length shp"
    by (auto simp: length_Suc_conv)
  have e: "0 < e" and rest: "\<forall>e\<in>set shp. 0 < e" using Cons.prems(3) by simp_all
  have ab: "a < b + e" "b < a + e"
    and sep: "\<not> separated o1' o2' (map2 (+) o1' shp) (map2 (+) o2' shp)"
    using Cons.prems(4) by (simp_all add: o1 o2)
  have IH: "0 < prod_list (slice_shape
           (map (\<lambda>(b, e). Slice (Some b) (Some e))
              (zip (map2 (-) (map2 max o1' o2') o2')
                   (map2 (+) (map2 (-) (map2 max o1' o2') o2')
                      (map2 (-) (map2 min (map2 (+) o1' shp) (map2 (+) o2' shp))
                                (map2 max o1' o2')))))
           (map nat shp))"
    using o1(2) o2(2) rest sep by (rule Cons.IH)
  have "0 < clip_bound (nat e) (max a b - b + (min (a + e) (b + e) - max a b))
          - clip_bound (nat e) (max a b - b)"
    using e ab by (auto simp: clip_bound_def max_def min_def)
  with IH show ?case by (simp add: o1 o2)
qed

lemma local_slices_length:
  "length (roi_slices (roi_sub (intersect a b) by)) \<le> length (roi_shape a)"
  by (cases "intersects a b")
     (simp_all add: roi_slices_def to_slices_def roi_sub_def intersect_def Roi_def roi_begin_def
        roi_end_def roi_dims_def Let_def min.coboundedI2 min.coboundedI1)

lemma local_slices_intersecting:
  assumes "length (roi_offset a) = length (roi_shape a)"
    and "length (roi_offset b) = length (roi_shape a)"
    and "roi_shape b = roi_shape a"
    and "\<forall>e\<in>set (roi_shape a). 0 < e"
    and "intersects a b"
  shows "0 < prod_list (slice_shape (roi_slices (roi_sub (intersect a b) (roi_begin b)))
                                    (map nat (roi_shape a)))"
proof -
  have sep: "\<not> separated (roi_offset a) (roi_offset b)
               (map2 (+) (roi_offset a) (roi_shape a)) (map2 (+) (roi_offset b) (roi_shape a))"
    using assms(5,3) by (auto simp: intersects_def roi_begin_def roi_end_def split: if_splits)
  show ?thesis
    using local_slices_positive[OF assms(1,2,4) sep] assms(5,3)
    by (simp add: roi_slices_def to_slices_def roi_sub_def intersect_def Roi_def roi_begin_def
        roi_end_def Let_def)
qed

lemma positive_shape:
  assumes "\<forall>e\<in>set shp. (0::int) < e"
  shows "map int (map nat shp) = shp" and "0 < prod_list (map nat shp)"
  using assms by (induction shp) simp_all

subsection \<open>The loop of \<open>get_x_hat\<close>\<close>

lemma own_part:
  assumes "shape H = [k, d]" and "0 < d"
  shows "bind_err (nd_row H i) (\<lambda>hl. bind_err (nd_row B i) (\<lambda>bl.
           bind_err (np_reshape (outer w (nd_sigmoid hl)) (- 1 # map int (shape (nd_sigmoid hl))))
             (\<lambda>wh. bind_err (nd_add wh (nd_sigmoid bl)) K)))
       = bind_err (nd_row H i) (\<lambda>hl. bind_err (nd_row B i) (\<lambda>bl.
           bind_err (nd_add (outer w (nd_sigmoid hl)) (nd_sigmoid bl)) K))"
proof (cases "i < k")
  case False
  then show ?thesis using assms(1) by (simp add: nd_row_def)
next
  case True
  let ?hl = "\<lparr>shape = [d], data = block d i (data H)\<rparr>"
  have row: "nd_row H i = Inr ?hl"
    using assms(1) True by (simp add: nd_row_def)
  have "np_reshape (outer w (nd_sigmoid ?hl)) (- 1 # map int [d])
      = Inr \<lparr>shape = nd_size w # [d], data = data (outer w (nd_sigmoid ?hl))\<rparr>"
    using assms(2)
    by (intro reshape_infer_first) (simp_all add: outer_def nd_size_def nd_sigmoid_def nd_map_def)
  moreover have "\<lparr>shape = nd_size w # [d], data = data (outer w (nd_sigmoid ?hl))\<rparr>
      = outer w (nd_sigmoid ?hl)"
    by (simp add: outer_def nd_size_def nd_sigmoid_def nd_map_def)
  ultimately have "np_reshape (outer w (nd_sigmoid ?hl)) (- 1 # map int (shape (nd_sigmoid ?hl)))
      = Inr (outer w (nd_sigmoid ?hl))"
    by (simp add: nd_sigmoid_def nd_map_def)
  then show ?thesis by (simp add: row)
qed

lemma get_x_hat_own:
  assumes "shape H = [k, d]" and "0 < d"
  shows "get_x_hat H W B cs c frames
       = bind_err (own_contribution H W B c frames) (\<lambda>x_hat.
         bind_err (fold_err (overlap_step W (bounding_box c) frames cs)
                     (overlapping_components c) (H, B, x_hat)) (\<lambda>st. Inr (snd (snd st))))"
proof (cases "nd_index2 W (index c) frames")
  case (Inl e)
  then show ?thesis by (simp add: get_x_hat_def own_contribution_def Let_def)
next
  case (Inr wl)
  show ?thesis
    unfolding get_x_hat_def own_contribution_def Let_def Inr bind_err_simps
      own_part[OF assms] bind_err_assoc ..
qed

lemma overlap_step_spec:
  assumes H: "shape H = [k, d]" "nd_ok H" and B: "shape B = [k, d]" "nd_ok B"
    and W: "shape W = [kw, t]" "nd_ok W"
    and bb: "length (roi_offset bb) = length (roi_shape bb)" "\<forall>e\<in>set (roi_shape bb). 0 < e"
      "prod_list (map nat (roi_shape bb)) = d"
    and nb: "roi_shape (bounding_box (cs ! p)) = roi_shape bb"
      "length (roi_offset (bounding_box (cs ! p))) = length (roi_shape bb)"
      "intersects bb (bounding_box (cs ! p))"
    and Hs: "Hs = H \<or> Hs = \<lparr>shape = k # map nat (roi_shape bb), data = data H\<rparr>"
    and Bs: "Bs = B \<or> Bs = \<lparr>shape = k # map nat (roi_shape bb), data = data B\<rparr>"
  shows "overlap_step W bb frames cs p (Hs, Bs, x)
       = bind_err (add_neighbour H W B bb frames (cs ! p) x) (\<lambda>x'.
           Inr (\<lparr>shape = k # map nat (roi_shape bb), data = data H\<rparr>,
                \<lparr>shape = k # map nat (roi_shape bb), data = data B\<rparr>, x'))"
proof -
  let ?s = "map nat (roi_shape bb)"
  let ?Hr = "\<lparr>shape = k # ?s, data = data H\<rparr>" and ?Br = "\<lparr>shape = k # ?s, data = data B\<rparr>"
  let ?c' = "cs ! p"
  let ?j = "index ?c'"
  let ?sls = "roi_slices (roi_sub (intersect bb (bounding_box ?c')) (roi_begin (bounding_box ?c')))"
  let ?sli = "Slice None None #
     roi_slices (roi_sub (intersect bb (bounding_box ?c')) (roi_begin bb))"
  let ?K = "\<lambda>u. bind_err (at_add x ?sli u) (\<lambda>x'. Inr (?Hr, ?Br, x'))"
  have ints: "map int ?s = roi_shape bb" and d: "0 < prod_list ?s"
    using positive_shape[OF bb(2)] by simp_all
  have ints': "map (int \<circ> nat) (roi_shape bb) = roi_shape bb"
    using ints by simp
  have ps: "prod_list ?s = d" by (rule bb(3))
  have "nd_size Hs = k * prod_list ?s"
    using Hs H(1) ps by (auto simp: nd_size_def)
  then have rH: "np_reshape Hs (- 1 # roi_shape bb) = Inr ?Hr"
    using reshape_infer_first[of Hs k ?s] d ints Hs by auto
  have "nd_size Bs = k * prod_list ?s"
    using Bs B(1) ps by (auto simp: nd_size_def)
  then have rB: "np_reshape Bs (- 1 # roi_shape bb) = Inr ?Br"
    using reshape_infer_first[of Bs k ?s] d ints Bs by auto
  show ?thesis
  proof (cases "nd_index2 W ?j frames")
    case (Inl e)
    then show ?thesis
      by (simp add: overlap_step_def Let_def rH rB add_neighbour_def restricted_contribution_def
          own_contribution_def)
  next
    case (Inr wl)
    let ?w = "nd_sigmoid wl"
    have w: "shape ?w = [length frames]" "length (data ?w) = length frames"
      using nd_index2_vector[OF W Inr] by (simp_all add: nd_sigmoid_def nd_map_def)
    show ?thesis
    proof (cases "?j < k")
      case False
      then have "nd_row ?Hr ?j = Inl IndexError" "nd_row H ?j = Inl IndexError"
        using H(1) by (simp_all add: nd_row_def)
      then show ?thesis
        by (simp add: overlap_step_def Let_def rH rB add_neighbour_def
            restricted_contribution_def own_contribution_def Inr nd_row_slice_def)
    next
      case True
      let ?hrow = "block d ?j (data H)" and ?brow = "block d ?j (data B)"
      have rows: "nd_row H ?j = Inr \<lparr>shape = [d], data = ?hrow\<rparr>"
        "nd_row B ?j = Inr \<lparr>shape = [d], data = ?brow\<rparr>"
        "nd_row ?Hr ?j = Inr \<lparr>shape = ?s, data = ?hrow\<rparr>"
        "nd_row ?Br ?j = Inr \<lparr>shape = ?s, data = ?brow\<rparr>"
        using H(1) B(1) True ps by (simp_all add: nd_row_def)
      have lens: "length ?hrow = prod_list ?s" "length ?brow = prod_list ?s"
        using nd_row_flat(2)[OF H True] nd_row_flat(2)[OF B True] ps by simp_all
      have len_sls: "length ?sls \<le> length ?s"
        using local_slices_length[of bb "bounding_box ?c'"] by simp
      have pos: "0 < prod_list (slice_shape ?sls ?s)"
        using bb(1) nb(2,1) bb(2) nb(3) by (rule local_slices_intersecting)
      have code: "overlap_step W bb frames cs p (Hs, Bs, x)
          = bind_err (bind_err (nd_slice \<lparr>shape = ?s, data = ?hrow\<rparr> ?sls) (\<lambda>hl.
              bind_err (nd_slice \<lparr>shape = ?s, data = ?brow\<rparr> ?sls) (\<lambda>bl.
              bind_err (np_reshape (outer ?w (nd_sigmoid hl))
                          (- 1 # map int (shape (nd_sigmoid hl))))
                (\<lambda>wh. nd_add wh (nd_sigmoid bl))))) ?K"
        by (simp add: overlap_step_def Let_def rH rB Inr nd_row_slice_def rows bind_err_assoc)
      have spec: "bind_err (add_neighbour H W B bb frames ?c' x) (\<lambda>x'. Inr (?Hr, ?Br, x'))
          = bind_err (bind_err
              (nd_add (outer ?w (nd_sigmoid \<lparr>shape = [prod_list ?s], data = ?hrow\<rparr>))
                      (nd_sigmoid \<lparr>shape = [prod_list ?s], data = ?brow\<rparr>)) (\<lambda>patch.
               bind_err (np_reshape patch (- 1 # map int ?s)) (\<lambda>patch.
               nd_slice patch (Slice None None # ?sls)))) ?K"
        by (simp add: add_neighbour_def restricted_contribution_def own_contribution_def Inr rows
            bind_err_assoc nb(1) ints' ps)
      show ?thesis
        unfolding code spec
        using sliced_contribution[OF w lens len_sls pos d] by simp
    qed
  qed
qed

lemma fold_overlaps_spec:
  assumes H: "shape H = [k, d]" "nd_ok H" and B: "shape B = [k, d]" "nd_ok B"
    and W: "shape W = [kw, t]" "nd_ok W"
    and bb: "length (roi_offset bb) = length (roi_shape bb)" "\<forall>e\<in>set (roi_shape bb). 0 < e"
      "prod_list (map nat (roi_shape bb)) = d"
    and nb: "\<forall>p\<in>set ps. roi_shape (bounding_box (cs ! p)) = roi_shape bb \<and>
      length (roi_offset (bounding_box (cs ! p))) = length (roi_shape bb) \<and>
      intersects bb (bounding_box (cs ! p))"
    and Hs: "Hs = H \<or> Hs = \<lparr>shape = k # map nat (roi_shape bb), data = data H\<rparr>"
    and Bs: "Bs = B \<or> Bs = \<lparr>shape = k # map nat (roi_shape bb), data = data B\<rparr>"
  shows "bind_err (fold_err (overlap_step W bb frames cs) ps (Hs, Bs, x))
           (\<lambda>st. Inr (snd (snd st)))
       = fold_err (\<lambda>p. add_neighbour H W B bb frames (cs ! p)) ps x"
  using nb Hs Bs
proof (induction ps arbitrary: Hs Bs x)
  case Nil
  show ?case by simp
next
  case (Cons p ps)
  let ?Hr = "\<lparr>shape = k # map nat (roi_shape bb), data = data H\<rparr>"
  let ?Br = "\<lparr>shape = k # map nat (roi_shape bb), data = data B\<rparr>"
  have p: "roi_shape (bounding_box (cs ! p)) = roi_shape bb"
    "length (roi_offset (bounding_box (cs ! p))) = length (roi_shape bb)"
    "intersects bb (bounding_box (cs ! p))"
    using Cons.prems(1) by simp_all
  have step: "overlap_step W bb frames cs p (Hs, Bs, x)
       = bind_err (add_neighbour H W B bb frames (cs ! p) x) (\<lambda>x'. Inr (?Hr, ?Br, x'))"
    using H B W bb p Cons.prems(2,3) by (rule overlap_step_spec)
  have rest: "bind_err (fold_err (overlap_step W bb frames cs) ps (?Hr, ?Br, x'))
           (\<lambda>st. Inr (snd (snd st)))
       = fold_err (\<lambda>p. add_neighbour H W B bb frames (cs ! p)) ps x'" for x'
    using Cons.prems(1) by (intro Cons.IH) simp_all
  show ?case
    by (cases "add_neighbour H W B bb frames (cs ! p) x") (simp_all add: step rest)
qed

lemmas roi_defs = Roi_def roi_begin_def roi_end_def roi_dims_def roi_size_def roi_empty_def
  intersects_def intersect_def roi_sub_def to_slices_def roi_slices_def

lemmas more_array_defs = nd_row_slice_def nd_slice_def at_add_def clip_bound_def

lemmas spec_defs = get_x_hat_spec_def add_neighbour_def restricted_contribution_def
  own_contribution_def

lemma lr_spec:
  "get_x_hat_spec zeros_2_2 zeros_2_1 zeros_2_2 left_right (left_right ! 0) [0]
     = Inr \<lparr>shape = [1, 1, 2], data = [3/4, 3/2]\<rparr>"
  by (simp add: spec_defs left_right_def left_box_def right_box_def zeros_2_2_def
      zeros_2_1_def roi_defs array_defs more_array_defs sigmoid_zero Let_def
      upt_two upt_rec)

lemma lr_hyps:
  "shape zeros_2_2 = [2, 2]" "nd_ok zeros_2_2" "shape zeros_2_1 = [2, 1]" "nd_ok zeros_2_1"
  "length (roi_offset (bounding_box (left_right ! 0)))
     = length (roi_shape (bounding_box (left_right ! 0)))"
  "\<forall>e\<in>set (roi_shape (bounding_box (left_right ! 0))). 0 < e"
  "prod_list (map nat (roi_shape (bounding_box (left_right ! 0)))) = 2"
  "\<forall>p\<in>set (overlapping_components (left_right ! 0)).
     roi_shape (bounding_box (left_right ! p)) = roi_shape (bounding_box (left_right ! 0)) \<and>
     length (roi_offset (bounding_box (left_right ! p)))
       = length (roi_shape (bounding_box (left_right ! 0))) \<and>
     intersects (bounding_box (left_right ! 0)) (bounding_box (left_right ! p))"
  by (simp_all add: zeros_2_2_def zeros_2_1_def nd_ok_def left_right_def left_box_def
      right_box_def roi_defs)

lemma wt_code:
  "get_x_hat marked_H zeros_2_1 zeros_2_6 wide_tall (wide_tall ! 0) [0]
     = Inr \<lparr>shape = [1, 2, 3], data = [3/2, 3/2, 3/4, 3/2, 3/2, 3/4]\<rparr>"
  by (simp add: get_x_hat_def overlap_step_def wide_tall_def wide_box_def tall_box_def marked_H_def
      zeros_2_6_def zeros_2_1_def roi_defs array_defs more_array_defs sigmoid_zero Let_def
      upt_two upt_rec)

lemma wt_spec:
  "get_x_hat_spec marked_H zeros_2_1 zeros_2_6 wide_tall (wide_tall ! 0) [0]
     = Inr \<lparr>shape = [1, 2, 3],
            data = [3/2, 3/2, 3/4, 3/4 + (1/2 * sigmoid 1 + 1/2), 3/2, 3/4]\<rparr>"
  by (simp add: spec_defs wide_tall_def wide_box_def tall_box_def marked_H_def
      zeros_2_6_def zeros_2_1_def roi_defs array_defs more_array_defs sigmoid_zero Let_def
      upt_two upt_rec)

lemma sigmoid_one: "sigmoid 1 \<noteq> 1 / 2"
  by (simp add: sigmoid_def field_simps)

text \<open>
  Claim C3 as amended: let \<open>H\<close> and \<open>B\<close> have shape \<open>(k, d)\<close> and \<open>W\<close> two dimensions,
  let the box of the target \<open>c\<close> have positive extents and \<open>d\<close> pixels, and let every
  listed neighbour \<open>c'\<close> have a box of the same shape as \<open>bb_c\<close> that intersects
  \<open>bb_c\<close>.  Then \<open>get_x_hat\<close> adds, for every listed neighbour, exactly the neighbour's
  own squashed contribution restricted to the intersection in the coordinates of
  \<open>c'\<close>, into the accumulator at the intersection in the coordinates of \<open>c\<close>: it
  returns what \<open>get_x_hat_spec\<close> returns, value or exception.
\<close>

theorem get_x_hat_adds_restricted_contributions:
  assumes "shape H = [k, d]" and "nd_ok H" and "shape B = [k, d]" and "nd_ok B"
    and "shape W = [kw, t]" and "nd_ok W"
    and "length (roi_offset (bounding_box c)) = length (roi_shape (bounding_box c))"
    and "\<forall>e\<in>set (roi_shape (bounding_box c)). 0 < e"
    and "prod_list (map nat (roi_shape (bounding_box c))) = d"
    and "\<forall>p\<in>set (overlapping_components c).
           roi_shape (bounding_box (cs ! p)) = roi_shape (bounding_box c) \<and>
           length (roi_offset (bounding_box (cs ! p))) = length (roi_shape (bounding_box c)) \<and>
           intersects (bounding_box c) (bounding_box (cs ! p))"
  shows "get_x_hat H W B cs c frames = get_x_hat_spec H W B cs c frames"
proof -
  have d: "0 < d"
    using positive_shape(2)[OF assms(8)] assms(9) by simp
  have "bind_err (fold_err (overlap_step W (bounding_box c) frames cs)
                     (overlapping_components c) (H, B, x)) (\<lambda>st. Inr (snd (snd st)))
      = fold_err (\<lambda>p. add_neighbour H W B (bounding_box c) frames (cs ! p))
          (overlapping_components c) x" for x
    using assms by (intro fold_overlaps_spec) simp_all
  then show ?thesis
    by (simp add: get_x_hat_own[OF assms(1) d] get_x_hat_spec_def)
qed

theorem get_x_hat_adds_restricted_contributions_witness:
  "shape zeros_2_2 = [2, 2] \<and> nd_ok zeros_2_2 \<and> shape zeros_2_1 = [2, 1] \<and> nd_ok zeros_2_1 \<and>
   overlapping_components (left_right ! 0) = [1] \<and>
   roi_shape (bounding_box (left_right ! 1)) = roi_shape (bounding_box (left_right ! 0)) \<and>
   intersects (bounding_box (left_right ! 0)) (bounding_box (left_right ! 1)) \<and>
   get_x_hat zeros_2_2 zeros_2_1 zeros_2_2 left_right (left_right ! 0) [0]
     = get_x_hat_spec zeros_2_2 zeros_2_1 zeros_2_2 left_right (left_right ! 0) [0] \<and>
   get_x_hat zeros_2_2 zeros_2_1 zeros_2_2 left_right (left_right ! 0) [0]
     = Inr \<lparr>shape = [1, 1, 2], data = [3/4, 3/2]\<rparr>"
proof -
  have "get_x_hat zeros_2_2 zeros_2_1 zeros_2_2 left_right (left_right ! 0) [0]
     = get_x_hat_spec zeros_2_2 zeros_2_1 zeros_2_2 left_right (left_right ! 0) [0]"
    using lr_hyps(1,2,1,2,3,4,5,6,7,8)
    by (rule get_x_hat_adds_restricted_contributions)
  then show ?thesis
    using lr_hyps by (simp add: lr_spec) (simp add: left_right_def)
qed

text \<open>
  The claim C3 as stated fails for a neighbour of a different shape.  The target has
  the box \<open>[0,2) x [0,3)\<close>, the neighbour the box \<open>[0,3) x [0,2)\<close>; the loop reshapes
  the rows of \<open>H\<close> and \<open>B\<close> with the shape of the target's box, so that the pixel
  \<open>(1, 0)\<close> of the neighbour, which \<open>H\<close> marks, is read from the place of the pixel
  \<open>(0, 2)\<close>, and \<open>get_x_hat\<close> does not return what the claim describes.
\<close>

theorem different_shape_counterexample:
  "roi_shape (bounding_box (wide_tall ! 0)) = [2, 3] \<and>
   roi_shape (bounding_box (wide_tall ! 1)) = [3, 2] \<and>
   intersects (bounding_box (wide_tall ! 0)) (bounding_box (wide_tall ! 1)) \<and>
   get_x_hat marked_H zeros_2_1 zeros_2_6 wide_tall (wide_tall ! 0) [0]
     \<noteq> get_x_hat_spec marked_H zeros_2_1 zeros_2_6 wide_tall (wide_tall ! 0) [0]"
proof -
  have "3/4 + (1/2 * sigmoid 1 + 1/2) \<noteq> (3/2 :: real)"
    using sigmoid_one by simp
  then show ?thesis
    unfolding wt_code wt_spec
    by (simp add: wide_tall_def wide_box_def tall_box_def roi_defs)
qed

subsection \<open>A listed neighbour that does not intersect\<close>

lemma reshape_infer_zero:
  assumes "prod_list r = 0"
  shows "np_reshape a (- 1 # map int r) = Inl ShapeMismatch"
proof -
  have f1: "filter (\<lambda>d. d = - 1) (map int r) = []"
    by (induction r) simp_all
  have f2: "filter (\<lambda>d. d \<noteq> - 1) (map int r) = map int r"
    by (induction r) simp_all
  have f5: "map (nat \<circ> int) r = r"
    by (induction r) simp_all
  show ?thesis
    using assms by (simp add: np_reshape_def f1 f2 f5 Let_def)
qed

lemma empty_intersection_slices:
  assumes "\<not> intersects a b" and "roi_shape a \<noteq> []" and "roi_offset b \<noteq> []"
  shows "\<exists>v rest. roi_slices (roi_sub (intersect a b) (roi_begin b))
           = Slice (Some v) (Some v) # rest"
proof -
  obtain e shp where a: "roi_shape a = e # shp" using assms(2) by (cases "roi_shape a") auto
  obtain o2 off where b: "roi_offset b = o2 # off" using assms(3) by (cases "roi_offset b") auto
  show ?thesis
    using assms(1)
    by (simp add: roi_slices_def to_slices_def roi_sub_def intersect_def Roi_def roi_begin_def
        roi_end_def roi_dims_def a b)
qed

lemma empty_slice_shape:
  assumes "nd_slice r (Slice (Some v) (Some v) # rest) = Inr hl"
  shows "prod_list (shape hl) = 0"
proof (cases "shape r")
  case Nil
  with assms show ?thesis by (simp add: nd_slice_def)
next
  case (Cons n s)
  with assms show ?thesis by (auto simp: nd_slice_def split: if_splits)
qed

lemma overlap_step_empty_intersection:
  assumes "\<not> intersects bb (bounding_box (cs ! p))" and "roi_shape bb \<noteq> []"
    and "roi_offset (bounding_box (cs ! p)) \<noteq> []"
  shows "\<exists>e. overlap_step W bb frames cs p st = Inl e"
proof -
  obtain Hs Bs x where st: "st = (Hs, Bs, x)" by (cases st)
  obtain v rest where sls:
    "roi_slices (roi_sub (intersect bb (bounding_box (cs ! p))) (roi_begin (bounding_box (cs ! p))))
       = Slice (Some v) (Some v) # rest"
    using empty_intersection_slices[OF assms] by blast
  have fail: "\<exists>e. bind_err (np_reshape (outer w (nd_sigmoid hl))
                       (- 1 # map int (shape (nd_sigmoid hl)))) K = Inl e"
    if "nd_row_slice Hr j (Slice (Some v) (Some v) # rest) = Inr hl" for Hr j hl w
      and K :: "ndarray \<Rightarrow> error + ndarray \<times> ndarray \<times> ndarray"
  proof -
    from that obtain r where "nd_slice r (Slice (Some v) (Some v) # rest) = Inr hl"
      by (cases "nd_row Hr j") (simp_all add: nd_row_slice_def)
    then have "prod_list (shape (nd_sigmoid hl)) = 0"
      using empty_slice_shape by (simp add: nd_sigmoid_def nd_map_def)
    then show ?thesis by (simp add: reshape_infer_zero)
  qed
  show ?thesis
    unfolding overlap_step_def st Let_def sls prod.case
    by (auto simp: bind_err_def fail[unfolded bind_err_def] split: sum.splits)
qed

lemma fold_err_fails:
  assumes "\<And>st. \<exists>e. f p st = Inl e" and "p \<in> set ps"
  shows "\<exists>e. fold_err f ps st = Inl e"
  using assms(2)
proof (induction ps arbitrary: st)
  case Nil
  then show ?case by simp
next
  case (Cons q ps)
  show ?case
  proof (cases "f q st")
    case (Inl e)
    then show ?thesis by simp
  next
    case (Inr st')
    have "q \<noteq> p" using assms(1)[of st] Inr by auto
    with Cons.prems have "p \<in> set ps" by simp
    then show ?thesis using Cons.IH[of st'] by (simp add: Inr)
  qed
qed

lemma stale_own:
  "own_contribution zeros_2_2 zeros_2_1 zeros_2_2 (stale ! 0) [0]
     = Inr \<lparr>shape = [1, 1, 2], data = [3/4, 3/4]\<rparr>"
  by (simp add: spec_defs stale_def left_box_def far_box_def zeros_2_2_def
      zeros_2_1_def roi_defs array_defs more_array_defs sigmoid_zero Let_def
      upt_two upt_rec)

lemma stale_code:
  "get_x_hat zeros_2_2 zeros_2_1 zeros_2_2 stale (stale ! 0) [0] = Inl ShapeMismatch"
  by (simp add: get_x_hat_def overlap_step_def stale_def left_box_def far_box_def zeros_2_2_def
      zeros_2_1_def roi_defs array_defs more_array_defs sigmoid_zero Let_def
      upt_two upt_rec)

text \<open>
  Claim C5 as amended: a listed neighbour whose box does not intersect the box of the
  target (boxes of at least one dimension) is not skipped.  Its slice is empty, the
  reshape of its zero-size contribution with an inferred first dimension fails, and
  \<open>get_x_hat\<close> raises an exception instead of returning a patch.
\<close>

theorem get_x_hat_fails_on_empty_intersection:
  assumes "p \<in> set (overlapping_components c)"
    and "\<not> intersects (bounding_box c) (bounding_box (cs ! p))"
    and "roi_shape (bounding_box c) \<noteq> []"
    and "roi_offset (bounding_box (cs ! p)) \<noteq> []"
  shows "\<exists>e. get_x_hat H W B cs c frames = Inl e"
proof -
  have "\<exists>e. fold_err (overlap_step W (bounding_box c) frames cs) (overlapping_components c) st
           = Inl e" for st
    using overlap_step_empty_intersection[OF assms(2,3,4)] assms(1) by (rule fold_err_fails)
  then have "\<exists>e. bind_err (fold_err (overlap_step W (bounding_box c) frames cs)
                     (overlapping_components c) st) K = Inl e"
    for st and K :: "ndarray \<times> ndarray \<times> ndarray \<Rightarrow> error + ndarray"
    by (metis bind_err_simps(1))
  then show ?thesis
    unfolding get_x_hat_def Let_def
    by (auto simp: bind_err_def split: sum.splits)
qed

theorem get_x_hat_fails_on_empty_intersection_witness:
  "1 \<in> set (overlapping_components (stale_segments ! 0)) \<and>
   \<not> intersects (bounding_box (stale_segments ! 0)) (bounding_box (stale_segments ! 1)) \<and>
   roi_shape (bounding_box (stale_segments ! 0)) \<noteq> [] \<and>
   roi_offset (bounding_box (stale_segments ! 1)) \<noteq> [] \<and>
   (\<exists>e. get_x_hat zeros_2_2 zeros_2_1 zeros_2_2 stale_segments (stale_segments ! 0) [0] = Inl e)"
proof -
  have h: "1 \<in> set (overlapping_components (stale_segments ! 0))"
    "\<not> intersects (bounding_box (stale_segments ! 0)) (bounding_box (stale_segments ! 1))"
    "roi_shape (bounding_box (stale_segments ! 0)) \<noteq> []"
    "roi_offset (bounding_box (stale_segments ! 1)) \<noteq> []"
    by (simp_all add: stale_segments_def segment_def far_segment_def roi_defs)
  show ?thesis
    using get_x_hat_fails_on_empty_intersection[OF h, of zeros_2_2 zeros_2_1 zeros_2_2 "[0]"] h
    by simp
qed

text \<open>
  The claim C5 as stated fails: the target's own patch is \<open>[3/4, 3/4]\<close>, its listed
  neighbour lies at \<open>[5,6) x [5,7)\<close> and does not intersect it, and \<open>get_x_hat\<close>
  raises instead of returning the patch unchanged.
\<close>

theorem empty_intersection_counterexample:
  "overlapping_components (stale ! 0) = [1] \<and>
   \<not> intersects (bounding_box (stale ! 0)) (bounding_box (stale ! 1)) \<and>
   own_contribution zeros_2_2 zeros_2_1 zeros_2_2 (stale ! 0) [0]
     = Inr \<lparr>shape = [1, 1, 2], data = [3/4, 3/4]\<rparr> \<and>
   get_x_hat zeros_2_2 zeros_2_1 zeros_2_2 stale (stale ! 0) [0] = Inl ShapeMismatch"
  unfolding stale_own stale_code
  by (simp add: stale_def left_box_def far_box_def roi_defs)

end
